theory Spec2Isabelle
  imports Complex_Main "HOL-Library.Multiset"
begin

section \<open>The master of the distributed engine (distributed/distributed.c)\<close>

text \<open>
  The master keeps the history of gtp commands of the current game in one character
  buffer, hands the latest command to one thread per slave machine, collects the
  replies of the slaves and picks the most popular move. The development follows the
  C file function by function. Everything a C function does beyond returning a value
  is explicit: the globals are the fields of one record that is passed in and handed
  back, the threads of the slaves and the clock act on a waiting master through a list
  of events, and an assertion that fails or an access outside an array is a result of
  its own.
\<close>

subsection \<open>Results\<close>

datatype error =
    Assert_reply_count      \<comment> \<open>\<open>assert(reply_count > 0)\<close>\<close>
  | Assert_active_slaves    \<comment> \<open>\<open>assert(active_slaves > 0)\<close> of \<open>slave_thread\<close>\<close>
  | Assert_gtp_cmd          \<comment> \<open>\<open>assert(gtp_cmd)\<close>, \<open>assert(to_send && gtp_cmd)\<close>\<close>
  | Out_of_bounds           \<comment> \<open>a write or read outside an allocated array\<close>
  | Int_overflow            \<comment> \<open>a value outside the range of \<open>int\<close>\<close>

text \<open>
  A function that waits on a condition variable returns only when the other threads let
  it: \<open>Blocked\<close> says that it is still waiting when the given events are used up.
\<close>

datatype 'a outcome = Blocked | Failed error | Done 'a

subsection \<open>The C library\<close>

text \<open>
  The functions of the C library that the file calls, on strings as lists of characters
  without the terminating NUL. \<open>isspace\<close>, \<open>isdigit\<close> and
  \<open>tolower\<close> are those of the C locale.
\<close>

definition isspace :: "char \<Rightarrow> bool" where
  "isspace c = (c \<in> set [CHR '' '', CHR 0x09, CHR 0x0A, CHR 0x0B, CHR 0x0C, CHR 0x0D])"

definition isdigit :: "char \<Rightarrow> bool" where
  "isdigit c = (c \<in> set ''0123456789'')"

definition tolower :: "char \<Rightarrow> char" where
  "tolower c = (let n = (of_char c :: nat) in if 65 \<le> n \<and> n \<le> 90 then char_of (n + 32) else c)"

text \<open>
  \<open>digits_val\<close> is the number that a run of decimal digits denotes, and
  \<open>xdigits_val\<close> the number that a run of hexadecimal digits denotes.
  \<open>unsigned\<close> takes an optional sign off a text and \<open>negative\<close>
  says whether that sign is a minus. \<open>scan_d\<close> reads an optionally signed
  decimal number at the start of a string and returns it with the rest of the string.
  The number is the mathematical one.
\<close>

definition isxdigit :: "char \<Rightarrow> bool" where
  "isxdigit c = (c \<in> set ''0123456789abcdefABCDEF'')"

definition digit_val :: "char \<Rightarrow> int" where
  "digit_val c = of_char c - 48"

definition digits_val :: "string \<Rightarrow> int" where
  "digits_val ds = foldl (\<lambda>a d. 10 * a + digit_val d) 0 ds"

definition xdigit_val :: "char \<Rightarrow> int" where
  "xdigit_val c = (if isdigit c then of_char c - 48 else of_char (tolower c) - 87)"

definition xdigits_val :: "string \<Rightarrow> int" where
  "xdigits_val ds = foldl (\<lambda>a d. 16 * a + xdigit_val d) 0 ds"

definition unsigned :: "string \<Rightarrow> string" where
  "unsigned s = (if s \<noteq> [] \<and> (hd s = CHR ''-'' \<or> hd s = CHR ''+'') then tl s else s)"

definition negative :: "string \<Rightarrow> bool" where
  "negative s = (s \<noteq> [] \<and> hd s = CHR ''-'')"

definition scan_d :: "string \<Rightarrow> (int \<times> string) option" where
  "scan_d s =
     (let ds = takeWhile isdigit (unsigned s)
      in if ds = [] then None
         else Some (if negative s then - digits_val ds else digits_val ds,
                    dropWhile isdigit (unsigned s)))"

text \<open>
  \<open>atoi(s)\<close> is \<open>(int) strtol(s, NULL, 10)\<close>. \<open>strtol\<close> skips
  white space, reads a number and ignores what follows; with no number there it returns
  0, and a number outside the range of \<open>long\<close> (64 bits) gives the nearest end
  of that range. The conversion to \<open>int\<close> keeps the low 32 bits. The C standard
  leaves the result of \<open>atoi\<close> open when the number does not fit an
  \<open>int\<close>; this is what the GNU C library returns, for instance 5 for the text
  4294967301.
\<close>

definition strtol :: "string \<Rightarrow> int" where
  "strtol s =
     (case scan_d (dropWhile isspace s) of
        None \<Rightarrow> 0
      | Some (v, rest) \<Rightarrow> max (- 9223372036854775808) (min 9223372036854775807 v))"

definition int_cast :: "int \<Rightarrow> int" where
  "int_cast v = (v + 2147483648) mod 4294967296 - 2147483648"

definition atoi :: "string \<Rightarrow> int" where
  "atoi s = int_cast (strtol s)"

text \<open>
  \<open>strchr s c\<close> points at the first \<open>c\<close> of \<open>s\<close>:
  the result is the rest of \<open>s\<close> from that character on, or
  \<open>None\<close> for \<open>NULL\<close>.
\<close>

definition strchr :: "string \<Rightarrow> char \<Rightarrow> string option" where
  "strchr s c = (if c \<in> set s then Some (dropWhile (\<lambda>x. x \<noteq> c) s) else None)"

text \<open>
  The file uses \<open>strcasecmp\<close> and \<open>strncasecmp\<close> as conditions
  only. The model returns the truth value of the C result: \<open>True\<close> when the
  strings (their first \<open>n\<close> characters) differ with letter case ignored,
  \<open>False\<close> when the C function returns 0.
\<close>

definition strcasecmp :: "string \<Rightarrow> string \<Rightarrow> bool" where
  "strcasecmp a b = (map tolower a \<noteq> map tolower b)"


text \<open>
  \<open>dec\<close> prints a non-negative number in decimal. \<open>printf_d\<close>
  is the conversion \<open>%d\<close>, and \<open>printf_0d w\<close> the conversion
  \<open>%0*d\<close> with the width \<open>w\<close>: zeros fill the field up to the
  width, after the sign; a number that needs more than \<open>w\<close> characters is
  printed in full.
\<close>

function dec :: "int \<Rightarrow> string" where
  "dec n = (if n < 10 then [char_of (48 + n)] else dec (n div 10) @ [char_of (48 + n mod 10)])"
  by pat_completeness auto
termination
  by (relation "measure nat") auto

declare dec.simps [simp del]

definition printf_d :: "int \<Rightarrow> string" where
  "printf_d i = (if i < 0 then CHR ''-'' # dec (- i) else dec i)"

definition printf_0d :: "nat \<Rightarrow> int \<Rightarrow> string" where
  "printf_0d w i =
     (let sign = (if i < 0 then ''-'' else ''''); ds = dec \<bar>i\<bar>
      in sign @ replicate (w - (length sign + length ds)) (CHR ''0'') @ ds)"

subsection \<open>sscanf\<close>

text \<open>
  \<open>sscanf\<close> as the GNU C library implements it, for the two formats of the
  file. A format is a list of directives: a literal character, white space (which
  matches any amount of white space, none included), and the conversions
  \<open>%d\<close>, \<open>%Ns\<close> and \<open>%f\<close>. Each conversion first skips
  white space, and a newline is white space: a conversion that finds nothing on the
  current line goes on reading on the next one.
\<close>

datatype directive = Lit char | Blank | Conv_d | Conv_s nat | Conv_f

datatype scanned = Int_val int | Str_val string | Flt_val "real option"

text \<open>
  \<open>%Ns\<close> takes at most \<open>N\<close> characters that are not white space.
\<close>

definition scan_s :: "nat \<Rightarrow> string \<Rightarrow> (string \<times> string) option" where
  "scan_s w s =
     (let tok = take w (takeWhile (\<lambda>c. \<not> isspace c) s)
      in if tok = [] then None else Some (tok, drop (length tok) s))"

text \<open>
  \<open>%f\<close> takes, after an optional sign, one of the words \<open>nan\<close>,
  \<open>inf\<close> and \<open>infinity\<close> in any letter case, or a hexadecimal number
  after \<open>0x\<close>, or a decimal number. \<open>match_ci w s\<close> takes the
  lower-case word \<open>w\<close> off the text \<open>s\<close>. A number has digits, an
  optional point with more digits, and an optional exponent: the letter \<open>e\<close>
  (\<open>p\<close> for a hexadecimal number), an optional sign and decimal digits. The
  exponent letter and its sign are taken also when no digit follows them; the exponent
  is then 0. A decimal number needs a digit before or after the point; \<open>0x\<close>
  needs a hexadecimal digit or a point after it. The result of \<open>scan_decimal\<close>
  and \<open>scan_hex\<close> is the number as mantissa, base and exponent, and the text
  left.
\<close>

fun match_ci :: "string \<Rightarrow> string \<Rightarrow> string option" where
  "match_ci [] s = Some s"
| "match_ci (c # w) [] = None"
| "match_ci (c # w) (x # s) = (if tolower x = c then match_ci w s else None)"

definition scan_exponent :: "char \<Rightarrow> string \<Rightarrow> int \<times> string" where
  "scan_exponent letter s =
     (if s \<noteq> [] \<and> tolower (hd s) = letter
      then (let ds = takeWhile isdigit (unsigned (tl s))
            in if ds = [] then (0, unsigned (tl s))
               else (if negative (tl s) then - digits_val ds else digits_val ds,
                     dropWhile isdigit (unsigned (tl s))))
      else (0, s))"

definition fraction :: "(char \<Rightarrow> bool) \<Rightarrow> string \<Rightarrow> bool \<times> string \<times> string" where
  "fraction digit s =
     (if s \<noteq> [] \<and> hd s = CHR ''.''
      then (True, takeWhile digit (tl s), dropWhile digit (tl s))
      else (False, [], s))"

definition scan_decimal :: "string \<Rightarrow> ((int \<times> int \<times> int) \<times> string) option" where
  "scan_decimal s =
     (case fraction isdigit (dropWhile isdigit s) of
        (point, fp, s2) \<Rightarrow>
          if takeWhile isdigit s = [] \<and> fp = [] then None
          else (case scan_exponent (CHR ''e'') s2 of
                  (e, rest) \<Rightarrow>
                    Some ((digits_val (takeWhile isdigit s @ fp), 10, e - int (length fp)), rest)))"

definition scan_hex :: "string \<Rightarrow> ((int \<times> int \<times> int) \<times> string) option" where
  "scan_hex s =
     (case fraction isxdigit (dropWhile isxdigit s) of
        (point, fp, s2) \<Rightarrow>
          if takeWhile isxdigit s = [] \<and> fp = [] then (if point then Some ((0, 2, 0), s2) else None)
          else (case scan_exponent (CHR ''p'') s2 of
                  (e, rest) \<Rightarrow>
                    Some ((xdigits_val (takeWhile isxdigit s @ fp), 2, e - 4 * int (length fp)), rest)))"

text \<open>
  The value stored is a \<open>float\<close>: the number rounded to the nearest number
  with 24 binary digits, to the one with an even last digit when two are equally near,
  in the exponent range of the single format (steps of \<open>2^-149\<close> at the lower
  end), and an infinity from \<open>2^128\<close> on. \<open>float_round n d\<close> rounds the
  fraction \<open>n / d\<close>; \<open>None\<close> stands for a value that is no finite number.
  \<open>bit_length\<close> counts the binary digits of a number and \<open>float_exp\<close>
  gives the binary exponent of a fraction.
\<close>

function ipow :: "int \<Rightarrow> int \<Rightarrow> int" where
  "ipow b e = (if e \<le> 0 then 1 else b * ipow b (e - 1))"
  by pat_completeness auto
termination
  by (relation "measure (\<lambda>(b, e). nat e)") auto

declare ipow.simps [simp del]

function bit_length :: "int \<Rightarrow> int" where
  "bit_length n = (if n \<le> 0 then 0 else 1 + bit_length (n div 2))"
  by pat_completeness auto
termination
  by (relation "measure nat") auto

declare bit_length.simps [simp del]

definition float_exp :: "int \<Rightarrow> int \<Rightarrow> int" where
  "float_exp n d =
     (let k = bit_length n - bit_length d
      in if (if 0 \<le> k then d * ipow 2 k \<le> n else d \<le> n * ipow 2 (- k)) then k else k - 1)"

definition float_round :: "int \<Rightarrow> int \<Rightarrow> real option" where
  "float_round n d =
     (if n = 0 then Some 0
      else let qe = max (float_exp n d) (- 126) - 23;
               N = (if 0 \<le> qe then n else n * ipow 2 (- qe));
               D = (if 0 \<le> qe then d * ipow 2 qe else d);
               q = (if D < 2 * (N mod D) \<or> (2 * (N mod D) = D \<and> odd (N div D))
                    then N div D + 1 else N div D)
           in if 0 \<le> qe then
                (if ipow 2 128 \<le> q * ipow 2 qe then None else Some (of_int (q * ipow 2 qe)))
              else Some (of_int q / of_int (ipow 2 (- qe))))"

definition strtof :: "int \<times> int \<times> int \<Rightarrow> real option" where
  "strtof x =
     (case x of (m, b, e) \<Rightarrow>
        if 0 \<le> e then float_round (m * ipow b e) 1 else float_round m (ipow b (- e)))"

definition scan_f :: "string \<Rightarrow> (real option \<times> string) option" where
  "scan_f s =
     (case match_ci ''nan'' (unsigned s) of
        Some r \<Rightarrow> Some (None, r)
      | None \<Rightarrow>
          (case match_ci ''inf'' (unsigned s) of
             Some r \<Rightarrow>
               if r \<noteq> [] \<and> tolower (hd r) = CHR ''i''
               then (case match_ci ''inity'' r of None \<Rightarrow> None | Some r' \<Rightarrow> Some (None, r'))
               else Some (None, r)
           | None \<Rightarrow>
               (case (if map tolower (take 2 (unsigned s)) = ''0x'' then scan_hex (drop 2 (unsigned s))
                      else scan_decimal (unsigned s)) of
                  None \<Rightarrow> None
                | Some (x, rest) \<Rightarrow>
                    Some (map_option (\<lambda>v. if negative s then - v else v) (strtof x), rest))))"

text \<open>
  \<open>scan\<close> runs the directives over the input and collects the values
  assigned. Its result is the value that \<open>sscanf\<close> returns, the values, and
  the input that is left where the scan ends: \<open>EOF\<close> when the input ends before
  the first conversion is complete, otherwise the number of assignments made when the
  input ends, stops matching, or the format ends. The input left is empty when the scan
  ends because the input has ended. \<open>sscanf\<close> itself gives the count and the
  values.
\<close>

definition EOF :: int where
  "EOF = -1"

definition stopped :: "scanned list \<Rightarrow> string \<Rightarrow> int \<times> scanned list \<times> string" where
  "stopped vs s = (int (length vs), vs, s)"

definition input_failure :: "scanned list \<Rightarrow> int \<times> scanned list \<times> string" where
  "input_failure vs = (if vs = [] then EOF else int (length vs), vs, [])"

fun scan :: "directive list \<Rightarrow> string \<Rightarrow> scanned list \<Rightarrow> int \<times> scanned list \<times> string" where
  "scan [] s vs = stopped vs s"
| "scan (Lit c # ds) s vs =
     (if s = [] then input_failure vs
      else if hd s = c then scan ds (tl s) vs else stopped vs s)"
| "scan (Blank # ds) s vs = scan ds (dropWhile isspace s) vs"
| "scan (Conv_d # ds) s vs =
     (let t = dropWhile isspace s
      in if t = [] then input_failure vs
         else (case scan_d t of
                 None \<Rightarrow> stopped vs t
               | Some (v, rest) \<Rightarrow> scan ds rest (vs @ [Int_val v])))"
| "scan (Conv_s w # ds) s vs =
     (let t = dropWhile isspace s
      in if t = [] then input_failure vs
         else (case scan_s w t of
                 None \<Rightarrow> stopped vs t
               | Some (tok, rest) \<Rightarrow> scan ds rest (vs @ [Str_val tok])))"
| "scan (Conv_f # ds) s vs =
     (let t = dropWhile isspace s
      in if t = [] then input_failure vs
         else (case scan_f t of
                 None \<Rightarrow> stopped vs t
               | Some (v, rest) \<Rightarrow> scan ds rest (vs @ [Flt_val v])))"

definition sscanf :: "string \<Rightarrow> directive list \<Rightarrow> int \<times> scanned list" where
  "sscanf s format = (case scan format s [] of (n, vs, rest) \<Rightarrow> (n, vs))"

subsection \<open>Boards, moves and statistics\<close>

text \<open>
  \<open>enum stone\<close>, and the fields of \<open>struct board\<close>,
  \<open>struct move\<close> and \<open>struct move_stats\<close> that the file reads
  or writes: \<open>b->moves\<close>, and \<open>board_size(b)\<close> and
  \<open>board_size2(b)\<close>, the side of the board and its number of points, border
  included. A coordinate (\<open>coord_t\<close>) is an integer. The
  \<open>value\<close> of a \<open>move_stats\<close> is a \<open>float\<close>;
  \<open>None\<close> stands for a value that is no finite number.
\<close>

datatype stone = S_NONE | S_BLACK | S_WHITE | S_OFFBOARD

record board =
  moves :: int
  board_size :: int
  board_size2 :: int

record move =
  coord :: int
  color :: stone

record move_stats =
  playouts :: int
  "value" :: "real option"

text \<open>
  Constants, macros and functions that the file takes from headers of the program and
  that are not defined in the file itself. They are parameters of the development:
  \<open>MAX_GAMELEN\<close>, which sizes the command buffer;
  \<open>DIST_GAMELEN\<close>, \<open>force_reply\<close> and
  \<open>prevent_reply\<close>, which build the id of a command, and
  \<open>reply_disabled\<close>, the test a slave applies to an id;
  \<open>is_reset\<close> and \<open>is_gamestart\<close>, which classify a gtp
  command; \<open>str2coord\<close> (with the board size as second argument),
  \<open>coord2str\<close>, \<open>stone2str\<close> and the coordinate
  \<open>pass\<close>.
\<close>

record extern =
  MAX_GAMELEN :: nat
  DIST_GAMELEN :: int
  force_reply :: "int \<Rightarrow> int"
  prevent_reply :: "int \<Rightarrow> int"
  reply_disabled :: "int \<Rightarrow> bool"
  is_reset :: "string \<Rightarrow> bool"
  is_gamestart :: "string \<Rightarrow> bool"
  str2coord :: "string \<Rightarrow> int \<Rightarrow> int"
  coord2str :: "int \<Rightarrow> board \<Rightarrow> string"
  stone2str :: "stone \<Rightarrow> string"
  pass :: int

text \<open>
  The range of \<open>int\<close>, 32 bits wide.
\<close>

definition in_int :: "int \<Rightarrow> bool" where
  "in_int v = (- 2147483648 \<le> v \<and> v \<le> 2147483647)"

text \<open>
  Modelled from the spec: \<open>stats_add_result\<close> belongs to stats.h and is not
  defined in the file. It adds \<open>n\<close> playouts with the average
  \<open>result\<close> to a statistic by playout-weighted averaging, new_n = old_n + n
  and new_value = (old_value * old_n + result * n) / new_n. In the model a count
  outside the range of \<open>int\<close> is an error, and the new value is no finite
  number when new_n is 0 or when one of the two values is none.
\<close>

definition stats_add_result :: "move_stats \<Rightarrow> real option \<Rightarrow> int \<Rightarrow> error + move_stats" where
  "stats_add_result s result n =
     (let new_n = playouts s + n
      in if \<not> in_int new_n then Inl Int_overflow
         else Inr \<lparr>playouts = new_n,
                   value = (case (value s, result) of
                              (Some old_value, Some v) \<Rightarrow>
                                if new_n = 0 then None
                                else Some ((old_value * of_int (playouts s) + v * of_int n) / of_int new_n)
                            | _ \<Rightarrow> None)\<rparr>)"

subsection \<open>The globals\<close>

text \<open>
  \<open>gtp_cmds\<close> is the C string that starts at the first byte of the buffer, and
  \<open>gtp_cmd\<close>, a pointer into the buffer or \<open>NULL\<close>, is an offset into it or
  \<open>None\<close>. \<open>gtp_replies\<close> is the array that \<open>distributed_state_init\<close>
  allocates with \<open>max_slaves\<close> entries; an entry is the text of the buffer it points
  to. \<open>gtp_id\<close> is the static variable of \<open>update_cmd\<close>. The two counters at the
  end record the calls of \<open>pthread_cond_broadcast(&cmd_cond)\<close> and of
  \<open>pthread_cond_signal(&reply_cond)\<close>. The mutex \<open>slave_lock\<close> is not a field:
  each function below is one thread's run between taking and releasing it, and the
  other threads act only while that thread waits.
\<close>

record shared =
  gtp_cmds :: string
  gtp_cmd :: "nat option"
  active_slaves :: nat
  reply_count :: nat
  gtp_replies :: "string list"
  gtp_id :: int
  cmd_broadcasts :: nat
  reply_signals :: nat

subsection \<open>What the other threads do while the master waits\<close>

text \<open>
  A slave thread that has read a good reply runs
  \<open>gtp_replies[reply_count++] = buf; pthread_cond_signal(&reply_cond);\<close>
  (function \<open>slave_loop\<close>).
\<close>

definition deposit :: "string \<Rightarrow> shared \<Rightarrow> error + shared" where
  "deposit buf st =
     (if reply_count st < length (gtp_replies st)
      then Inr (st\<lparr>gtp_replies := (gtp_replies st)[reply_count st := buf],
                    reply_count := Suc (reply_count st),
                    reply_signals := Suc (reply_signals st)\<rparr>)
      else Inl Out_of_bounds)"

text \<open>
  \<open>slave_thread\<close> runs \<open>active_slaves++\<close> when a slave has passed the identity
  check and \<open>assert(active_slaves > 0); active_slaves--;\<close> when the connection is
  lost.
\<close>

definition slave_enters :: "shared \<Rightarrow> shared" where
  "slave_enters st = st\<lparr>active_slaves := Suc (active_slaves st)\<rparr>"

definition slave_leaves :: "shared \<Rightarrow> error + shared" where
  "slave_leaves st =
     (if 0 < active_slaves st then Inr (st\<lparr>active_slaves := active_slaves st - 1\<rparr>)
      else Inl Assert_active_slaves)"

text \<open>
  The events that reach a master waiting on \<open>reply_cond\<close>: a slave thread deposits a
  reply, enters or leaves; the wait returns because of a signal (or spuriously) and
  \<open>time_now()\<close> then reads the given time; or the clock reaches the given time, which
  ends a timed wait whose deadline has passed and no other wait.
\<close>

datatype event = Deposit string | Join | Leave | Wake real | Timeout real

subsection \<open>\<open>get_replies\<close>\<close>

text \<open>
  \<open>ts.tv_nsec = (int)(modf(time_limit, &sec)*1000000000.0); ts.tv_sec = (int)sec;\<close>
  Both casts cut the fraction off, towards zero.
\<close>

definition c_trunc :: "real \<Rightarrow> int" where
  "c_trunc x = (if 0 \<le> x then \<lfloor>x\<rfloor> else \<lceil>x\<rceil>)"

record timespec =
  tv_sec :: int
  tv_nsec :: int

definition timespec_of :: "real \<Rightarrow> timespec" where
  "timespec_of time_limit =
     (let sec = c_trunc time_limit
      in \<lparr>tv_sec = sec, tv_nsec = c_trunc ((time_limit - of_int sec) * 1000000000)\<rparr>)"

text \<open>
  A timed wait is over at time \<open>t\<close> when its deadline is not later than \<open>t\<close>;
  \<open>pthread_cond_timedwait\<close> refuses a negative \<open>tv_nsec\<close> at once.
\<close>

definition expired :: "timespec \<Rightarrow> real \<Rightarrow> bool" where
  "expired ts t = (tv_nsec ts < 0 \<or> of_int (tv_sec ts) + of_int (tv_nsec ts) / 1000000000 \<le> t)"

datatype wait = Cond_wait | Cond_timedwait timespec

text \<open>
  One call of \<open>pthread_cond_wait\<close> or \<open>pthread_cond_timedwait\<close> on
  \<open>reply_cond\<close>: the other threads change the globals until an event ends the wait.
  The result is the time that \<open>time_now()\<close> reads next, the globals and the events
  that are left.
\<close>

fun await :: "wait \<Rightarrow> shared \<Rightarrow> event list \<Rightarrow> (real \<times> shared \<times> event list) outcome" where
  "await w st [] = Blocked"
| "await w st (Deposit buf # evs) =
     (case deposit buf st of Inl e \<Rightarrow> Failed e | Inr st' \<Rightarrow> await w st' evs)"
| "await w st (Join # evs) = await w (slave_enters st) evs"
| "await w st (Leave # evs) =
     (case slave_leaves st of Inl e \<Rightarrow> Failed e | Inr st' \<Rightarrow> await w st' evs)"
| "await w st (Wake t # evs) = Done (t, st, evs)"
| "await Cond_wait st (Timeout t # evs) = await Cond_wait st evs"
| "await (Cond_timedwait ts) st (Timeout t # evs) =
     (if expired ts t then Done (t, st, evs) else await (Cond_timedwait ts) st evs)"

text \<open>
  \<open>#define EXTRA_TIME 0.5\<close>
\<close>

definition EXTRA_TIME :: real where
  "EXTRA_TIME = 1 / 2"

text \<open>\<open>if (time_limit && reply_count > 0)\<close> chooses the timed wait.\<close>

definition wait_of :: "real \<Rightarrow> shared \<Rightarrow> wait" where
  "wait_of time_limit st =
     (if time_limit \<noteq> 0 \<and> 0 < reply_count st then Cond_timedwait (timespec_of time_limit)
      else Cond_wait)"

text \<open>The end of the function: \<open>assert(reply_count > 0)\<close>.\<close>

definition get_replies_end :: "shared \<Rightarrow> event list \<Rightarrow> (shared \<times> event list) outcome" where
  "get_replies_end st evs = (if 0 < reply_count st then Done (st, evs) else Failed Assert_reply_count)"

lemma await_shorter:
  "await w st evs = Done (t, st', evs') \<Longrightarrow> length evs' < length evs"
proof (induction w st evs rule: await.induct)
  case (2 w st buf evs)
  then show ?case by (cases "deposit buf st") auto
next
  case (4 w st evs)
  then show ?case by (cases "slave_leaves st") auto
next
  case (7 ts st t evs)
  then show ?case by (cases "expired ts t") auto
qed auto

text \<open>
  The loop \<open>while (reply_count == 0 || reply_count < active_slaves)\<close>.
  After the wait: \<open>if (reply_count == 0) continue;\<close>, \<open>if
  (reply_count >= active_slaves) break;\<close>, \<open>if (time_limit && now >=
  time_limit) break;\<close>, and then \<open>if (reply_count >= active_slaves / 2 &&
  (!time_limit || now + EXTRA_TIME < time_limit)) time_limit = now +
  EXTRA_TIME;\<close>. Every wait that ends has used at least one event, so the
  recursion ends; when the events run out during a wait the result is
  \<open>Blocked\<close>.
\<close>

function get_replies :: "real \<Rightarrow> shared \<Rightarrow> event list \<Rightarrow> (shared \<times> event list) outcome" where
  "get_replies time_limit st evs =
     (if reply_count st = 0 \<or> reply_count st < active_slaves st then
        (case await (wait_of time_limit st) st evs of
           Blocked \<Rightarrow> Blocked
         | Failed e \<Rightarrow> Failed e
         | Done (now, st', evs') \<Rightarrow>
             if reply_count st' = 0 then get_replies time_limit st' evs'
             else if active_slaves st' \<le> reply_count st' then get_replies_end st' evs'
             else if time_limit \<noteq> 0 \<and> time_limit \<le> now then get_replies_end st' evs'
             else if active_slaves st' div 2 \<le> reply_count st'
                     \<and> (time_limit = 0 \<or> now + EXTRA_TIME < time_limit)
               then get_replies (now + EXTRA_TIME) st' evs'
             else get_replies time_limit st' evs')
      else get_replies_end st evs)"
  by pat_completeness auto
termination
  by (relation "measure (\<lambda>(time_limit, st, evs). length evs)") (auto dest: await_shorter)

declare get_replies.simps [simp del]

subsection \<open>\<open>select_best_move\<close>\<close>

text \<open>
  The two formats of \<open>select_best_move\<close>: \<open>=%d %d %d\<close> for the
  first line of a reply and \<open>%63s %d %f\<close> for a data line. A line counts
  when \<open>sscanf\<close> returns 3.
\<close>

definition header_format :: "directive list" where
  "header_format = [Lit (CHR ''=''), Conv_d, Blank, Conv_d, Blank, Conv_d]"

definition data_format :: "directive list" where
  "data_format = [Conv_s 63, Blank, Conv_d, Blank, Conv_f]"

definition scan_header :: "string \<Rightarrow> (int \<times> int \<times> int) option" where
  "scan_header r =
     (case sscanf r header_format of
        (n, [Int_val r_id, Int_val r_playouts, Int_val r_threads]) \<Rightarrow>
          if n = 3 then Some (r_id, r_playouts, r_threads) else None
      | _ \<Rightarrow> None)"

definition scan_data :: "string \<Rightarrow> (string \<times> int \<times> real option) option" where
  "scan_data r =
     (case sscanf r data_format of
        (n, [Str_val s_move, Int_val s_playouts, Flt_val s_value]) \<Rightarrow>
          if n = 3 then Some (s_move, s_playouts, s_value) else None
      | _ \<Rightarrow> None)"

text \<open>
  The local variables of \<open>select_best_move\<close>. The array
  \<open>stats\<close> has, after \<open>stats += 2\<close>, the indices from -2 to
  \<open>board_size2(b) - 1\<close> (\<open>in_stats\<close>); \<open>memset\<close>
  has filled it with zeros.
\<close>

record aggregator =
  stats :: "int \<Rightarrow> move_stats"
  best_move :: int
  best_playouts :: int
  total_playouts :: int
  total_threads :: int

definition in_stats :: "board \<Rightarrow> int \<Rightarrow> bool" where
  "in_stats b c = (- 2 \<le> c \<and> c < board_size2 b)"

text \<open>
  The body of the inner loop: \<open>coord_t *c = str2coord(move, board_size(b));
  stats_add_result(&stats[*c], s.value, s.playouts); if (stats[*c].playouts >
  best_playouts) { best_playouts = stats[*c].playouts; best_move = *c; }\<close>. A
  coordinate outside the array is an error, and so is a count that \<open>%d\<close>
  cannot store in an \<open>int\<close>.
\<close>

definition merge_line :: "extern \<Rightarrow> board \<Rightarrow> aggregator \<Rightarrow> string \<times> int \<times> real option \<Rightarrow> error + aggregator" where
  "merge_line X b a l =
     (case l of (s_move, s_playouts, s_value) \<Rightarrow>
        if \<not> in_int s_playouts then Inl Int_overflow
        else let c = str2coord X s_move (board_size b)
             in if \<not> in_stats b c then Inl Out_of_bounds
                else (case stats_add_result (stats a c) s_value s_playouts of
                        Inl e \<Rightarrow> Inl e
                      | Inr s \<Rightarrow>
                          Inr (if best_playouts a < playouts s
                               then a\<lparr>stats := (stats a)(c := s), best_playouts := playouts s, best_move := c\<rparr>
                               else a\<lparr>stats := (stats a)(c := s)\<rparr>)))"

lemma strchr_shorter: "strchr s c = Some r \<Longrightarrow> length r \<le> length s"
  by (auto simp: strchr_def length_dropWhile_le split: if_splits)

text \<open>
  The inner loop \<open>while (r && sscanf(++r, "%63s %d %f", ...) == 3) { ...; r =
  strchr(r, '\n'); }\<close>. \<open>r\<close> is \<open>None\<close> for
  \<open>NULL\<close> and otherwise the text at the pointer, which begins with the
  newline that \<open>strchr\<close> has found; \<open>++r\<close> steps over it. The
  loop ends at the first text that does not scan.
\<close>

function data_lines :: "extern \<Rightarrow> board \<Rightarrow> aggregator \<Rightarrow> string option \<Rightarrow> error + aggregator" where
  "data_lines X b a None = Inr a"
| "data_lines X b a (Some r) =
     (if r = [] then Inl Out_of_bounds
      else (case scan_data (tl r) of
              None \<Rightarrow> Inr a
            | Some l \<Rightarrow>
                (case merge_line X b a l of
                   Inl e \<Rightarrow> Inl e
                 | Inr a' \<Rightarrow> data_lines X b a' (strchr (tl r) (CHR ''\<newline>'')))))"
  by pat_completeness auto
termination
proof (relation "measure (\<lambda>(X, b, a, r). case r of None \<Rightarrow> 0 | Some s \<Rightarrow> Suc (length s))")
  show "wf (measure (\<lambda>(X, b, a, r). case r of None \<Rightarrow> 0 | Some s \<Rightarrow> Suc (length s)))" by simp
next
  fix X :: extern and b :: board and a a' :: aggregator and r :: string and l
  assume "r \<noteq> []"
  then have "length (tl r) < length r" by (cases r) auto
  moreover have "\<And>s. strchr (tl r) (CHR ''\<newline>'') = Some s \<Longrightarrow> length s \<le> length (tl r)"
    by (rule strchr_shorter)
  ultimately show "((X, b, a', strchr (tl r) (CHR ''\<newline>'')), X, b, a, Some r)
      \<in> measure (\<lambda>(X, b, a, r). case r of None \<Rightarrow> 0 | Some s \<Rightarrow> Suc (length s))"
    by (cases "strchr (tl r) (CHR ''\<newline>'')") force+
qed

declare data_lines.simps(2) [simp del]

text \<open>
  The outer loop over \<open>gtp_replies[0]\<close> to \<open>gtp_replies[reply_count -
  1]\<close>: \<open>if (sscanf(r, "=%d %d %d", &id, &playouts, &threads) != 3)
  continue; *total_playouts += playouts; *total_threads += threads; r = strchr(r,
  '\n');\<close> followed by the inner loop.
\<close>

fun replies_loop :: "extern \<Rightarrow> board \<Rightarrow> aggregator \<Rightarrow> string list \<Rightarrow> error + aggregator" where
  "replies_loop X b a [] = Inr a"
| "replies_loop X b a (r # rs) =
     (case scan_header r of
        None \<Rightarrow> replies_loop X b a rs
      | Some (r_id, r_playouts, r_threads) \<Rightarrow>
          if \<not> (in_int r_id \<and> in_int r_playouts \<and> in_int r_threads) then Inl Int_overflow
          else if \<not> in_int (total_playouts a + r_playouts) \<or> \<not> in_int (total_threads a + r_threads)
          then Inl Int_overflow
          else (case data_lines X b
                       (a\<lparr>total_playouts := total_playouts a + r_playouts,
                          total_threads := total_threads a + r_threads\<rparr>)
                       (strchr r (CHR ''\<newline>'')) of
                  Inl e \<Rightarrow> Inl e
                | Inr a' \<Rightarrow> replies_loop X b a' rs))"

text \<open>
  \<open>select_best_move\<close> itself: \<open>assert(reply_count > 0)\<close>, the
  initial values \<open>best_move = pass\<close>, \<open>best_playouts = -1\<close> and
  zero totals, the loops, and the result \<open>*best_stats = stats[best_move]; return
  best_move;\<close> together with the two totals. The replies read are the first
  \<open>reply_count\<close> entries of \<open>gtp_replies\<close>.
\<close>

definition aggregator_init :: "extern \<Rightarrow> aggregator" where
  "aggregator_init X =
     \<lparr>stats = (\<lambda>c. \<lparr>playouts = 0, value = Some 0\<rparr>), best_move = pass X, best_playouts = - 1,
      total_playouts = 0, total_threads = 0\<rparr>"

definition select_best_move ::
    "extern \<Rightarrow> board \<Rightarrow> shared \<Rightarrow> error + (int \<times> move_stats \<times> int \<times> int)" where
  "select_best_move X b st =
     (if reply_count st = 0 then Inl Assert_reply_count
      else if length (gtp_replies st) < reply_count st then Inl Out_of_bounds
      else (case replies_loop X b (aggregator_init X) (take (reply_count st) (gtp_replies st)) of
              Inl e \<Rightarrow> Inl e
            | Inr a \<Rightarrow>
                if \<not> in_stats b (best_move a) then Inl Out_of_bounds
                else Inr (best_move a, stats a (best_move a), total_playouts a, total_threads a)))"

subsection \<open>What \<open>select_best_move\<close> has merged\<close>

text \<open>
  The next definitions are not code of the file. They record what the two loops read
  from a list of replies and serve the proofs: the invariant of the loops is stated
  over them. The statements about replies are made over the lines of a reply, which the
  next subsection defines.

  \<open>data_of\<close> lists the triples that the inner loop scans, at the places in
  the text where the loop scans them: it follows the loop, from one newline to the text
  after it. \<open>reply_lines\<close> does so for a reply from its header on (none
  when the header does not scan), and \<open>merged\<close> lists for all replies, in
  the order of reading, the triples of coordinate, playouts and value. \<open>lines_for c\<close>
  are the playouts and values read for the coordinate \<open>c\<close>, and
  \<open>aggregate ls c\<close> is the sum of these playouts. \<open>merge_from
  s\<close> adds lines to the statistic \<open>s\<close> one after the other with
  \<open>stats_add_result\<close>; \<open>zero_stats\<close> is an entry of the array
  after \<open>memset\<close>. \<open>headers\<close> lists the headers that scan.
  \<open>nonneg\<close> says that no line has a negative playout count.
\<close>

function data_of :: "string option \<Rightarrow> (string \<times> int \<times> real option) list" where
  "data_of None = []"
| "data_of (Some r) =
     (if r = [] then []
      else (case scan_data (tl r) of
              None \<Rightarrow> []
            | Some l \<Rightarrow> l # data_of (strchr (tl r) (CHR ''\<newline>''))))"
  by pat_completeness auto
termination
proof (relation "measure (\<lambda>r. case r of None \<Rightarrow> 0 | Some s \<Rightarrow> Suc (length s))")
  show "wf (measure (\<lambda>r. case r of None \<Rightarrow> 0 | Some s \<Rightarrow> Suc (length s)))" by simp
next
  fix r :: string and l :: "string \<times> int \<times> real option"
  assume "r \<noteq> []"
  then have "length (tl r) < length r" by (cases r) auto
  moreover have "\<And>s. strchr (tl r) (CHR ''\<newline>'') = Some s \<Longrightarrow> length s \<le> length (tl r)"
    by (rule strchr_shorter)
  ultimately show "(strchr (tl r) (CHR ''\<newline>''), Some r)
      \<in> measure (\<lambda>r. case r of None \<Rightarrow> 0 | Some s \<Rightarrow> Suc (length s))"
    by (cases "strchr (tl r) (CHR ''\<newline>'')") force+
qed

declare data_of.simps(2) [simp del]

definition reply_lines :: "string \<Rightarrow> (string \<times> int \<times> real option) list" where
  "reply_lines r = (case scan_header r of None \<Rightarrow> [] | Some h \<Rightarrow> data_of (strchr r (CHR ''\<newline>'')))"

definition counted ::
    "extern \<Rightarrow> board \<Rightarrow> (string \<times> int \<times> real option) list \<Rightarrow> (int \<times> int \<times> real option) list" where
  "counted X b ls = map (\<lambda>(m, p, v). (str2coord X m (board_size b), p, v)) ls"

definition merged :: "extern \<Rightarrow> board \<Rightarrow> string list \<Rightarrow> (int \<times> int \<times> real option) list" where
  "merged X b rs = counted X b (concat (map reply_lines rs))"

definition lines_for :: "int \<Rightarrow> (int \<times> int \<times> real option) list \<Rightarrow> (int \<times> real option) list" where
  "lines_for c ls = map snd (filter (\<lambda>l. fst l = c) ls)"

definition aggregate :: "(int \<times> int \<times> real option) list \<Rightarrow> int \<Rightarrow> int" where
  "aggregate ls c = sum_list (map fst (lines_for c ls))"

definition zero_stats :: move_stats where
  "zero_stats = \<lparr>playouts = 0, value = Some 0\<rparr>"

fun merge_from :: "move_stats \<Rightarrow> (int \<times> real option) list \<Rightarrow> error + move_stats" where
  "merge_from s [] = Inr s"
| "merge_from s ((p, v) # ls) =
     (case stats_add_result s v p of Inl e \<Rightarrow> Inl e | Inr s' \<Rightarrow> merge_from s' ls)"

text \<open>
  \<open>merge_all\<close> merges a list of triples into the local variables with the body
  of the inner loop, one after the other.
\<close>

fun merge_all ::
    "extern \<Rightarrow> board \<Rightarrow> aggregator \<Rightarrow> (string \<times> int \<times> real option) list \<Rightarrow> error + aggregator" where
  "merge_all X b a [] = Inr a"
| "merge_all X b a (l # ls) =
     (case merge_line X b a l of Inl e \<Rightarrow> Inl e | Inr a' \<Rightarrow> merge_all X b a' ls)"

definition headers :: "string list \<Rightarrow> (int \<times> int \<times> int) list" where
  "headers rs = List.map_filter scan_header rs"

definition nonneg :: "(int \<times> int \<times> real option) list \<Rightarrow> bool" where
  "nonneg ls = list_all (\<lambda>l. 0 \<le> fst (snd l)) ls"

text \<open>
  \<open>first_reach ls c\<close>: the coordinate \<open>c\<close> is the first whose
  running count reaches the final count of \<open>c\<close>. There is a line
  \<open>i\<close> for \<open>c\<close> at which the count of \<open>c\<close> is
  complete, and before that line no coordinate had a running count as large.
\<close>

definition first_reach :: "(int \<times> int \<times> real option) list \<Rightarrow> int \<Rightarrow> bool" where
  "first_reach ls c =
     (\<exists>i<length ls. fst (ls ! i) = c
        \<and> aggregate (take (Suc i) ls) c = aggregate ls c
        \<and> (\<forall>j<i. aggregate (take (Suc j) ls) (fst (ls ! j)) < aggregate ls c))"

text \<open>
  The invariant of the two loops when \<open>ls\<close> are the lines merged so far,
  for counts that are not negative: the array holds for every coordinate the lines of
  that coordinate merged in order, \<open>best_playouts\<close> is the largest count,
  and \<open>best_move\<close> is the first coordinate that reached it.
\<close>

definition agg_inv :: "extern \<Rightarrow> (int \<times> int \<times> real option) list \<Rightarrow> aggregator \<Rightarrow> bool" where
  "agg_inv X ls a =
     ((\<forall>c. playouts (stats a c) = aggregate ls c)
      \<and> (\<forall>c. merge_from zero_stats (lines_for c ls) = Inr (stats a c))
      \<and> (ls = [] \<longrightarrow> best_move a = pass X \<and> best_playouts a = - 1)
      \<and> (ls \<noteq> [] \<longrightarrow> best_playouts a = aggregate ls (best_move a)
            \<and> (\<forall>c. aggregate ls c \<le> best_playouts a)
            \<and> first_reach ls (best_move a)))"


subsection \<open>A reply, line by line\<close>

text \<open>
  Not code of the file: a reply as the list of its lines, each line read on its own.
  \<open>lines_of\<close> cuts a text at its newlines; the lines have no newline, and a
  text that ends with a newline has an empty last line. \<open>join_lines\<close> puts
  the newlines back. A line is blank when it has white space only.

  A line parses as a header when \<open>scan_header\<close> of the line alone gives a
  result, and as a data line when \<open>scan_data\<close> of the line alone does. A
  line is refused by a format when the scan of the line alone stops at a character of
  the line before the third assignment. A line that parses or is refused is read the
  same way whatever follows it. A line that ends before the third assignment is neither:
  the scan of such a line goes on in the lines that follow.

  \<open>header_by_line\<close> is the header of a reply read from its first line.
  \<open>data_by_line\<close> are the data lines of a reply: the lines after the first
  one up to the first line that does not parse, and none when the first line is no
  header. \<open>by_line\<close> lists the data lines of all replies as triples of
  coordinate, playouts and value, and \<open>headers_by_line\<close> the headers.
\<close>

definition is_conv :: "directive \<Rightarrow> bool" where
  "is_conv d = (case d of Lit c \<Rightarrow> False | Blank \<Rightarrow> False | _ \<Rightarrow> True)"

definition refused :: "directive list \<Rightarrow> string \<Rightarrow> bool" where
  "refused format l = (case scan format l [] of (n, vs, rest) \<Rightarrow> n \<noteq> 3 \<and> rest \<noteq> [])"

fun lines_of :: "string \<Rightarrow> string list" where
  "lines_of [] = [[]]"
| "lines_of (c # s) =
     (if c = CHR ''\<newline>'' then [] # lines_of s
      else (case lines_of s of [] \<Rightarrow> [[c]] | l # ls \<Rightarrow> (c # l) # ls))"

fun join_lines :: "string list \<Rightarrow> string" where
  "join_lines [] = []"
| "join_lines [l] = l"
| "join_lines (l # m # ls) = l @ CHR ''\<newline>'' # join_lines (m # ls)"

definition blank :: "string \<Rightarrow> bool" where
  "blank l = list_all isspace l"

definition parses :: "string \<Rightarrow> bool" where
  "parses l = (scan_data l \<noteq> None)"

definition header_by_line :: "string \<Rightarrow> (int \<times> int \<times> int) option" where
  "header_by_line r = scan_header (hd (lines_of r))"

definition data_by_line :: "string \<Rightarrow> (string \<times> int \<times> real option) list" where
  "data_by_line r =
     (if header_by_line r = None then []
      else List.map_filter scan_data (takeWhile parses (tl (lines_of r))))"

definition by_line :: "extern \<Rightarrow> board \<Rightarrow> string list \<Rightarrow> (int \<times> int \<times> real option) list" where
  "by_line X b rs = counted X b (concat (map data_by_line rs))"

definition headers_by_line :: "string list \<Rightarrow> (int \<times> int \<times> int) list" where
  "headers_by_line rs = List.map_filter header_by_line rs"

text \<open>
  \<open>line_wise\<close> describes the replies that \<open>select_best_move\<close>
  reads line by line. The first line parses as a header, or it is refused as one, or
  it does not parse and only blank lines follow. When the first line is a header, the
  lines that parse as data lines are followed by nothing, or by blank lines only, or
  by blank lines and a line that is refused. A reply of a header line, data lines and
  the empty line is of this kind. \<open>cut_reply\<close> is the reply cut down to
  its header line, its data lines and the empty line.
\<close>

definition line_wise :: "string \<Rightarrow> bool" where
  "line_wise r =
     (case lines_of r of
        [] \<Rightarrow> False
      | h # ls \<Rightarrow>
          if scan_header h = None then refused header_format h \<or> list_all blank ls
          else (case dropWhile blank (dropWhile parses ls) of
                  [] \<Rightarrow> True
                | l # after \<Rightarrow> refused data_format l))"

definition cut_reply :: "string \<Rightarrow> string" where
  "cut_reply r = join_lines (hd (lines_of r) # takeWhile parses (tl (lines_of r)) @ [[], []])"

subsection \<open>The ids of the commands\<close>



subsection \<open>\<open>update_cmd\<close>\<close>

text \<open>
  \<open>#define CMDS_SIZE (40*MAX_GAMELEN)\<close>, the size of
  \<open>gtp_cmds\<close> and of the buffer of each slave thread.
  \<open>snprintf\<close> with the size \<open>n\<close> stores the first \<open>n -
  1\<close> characters of the text and the terminating NUL.
\<close>

definition CMDS_SIZE :: "extern \<Rightarrow> nat" where
  "CMDS_SIZE X = 40 * MAX_GAMELEN X"

definition snprintf :: "nat \<Rightarrow> string \<Rightarrow> string" where
  "snprintf n s = take (n - 1) s"

text \<open>
  The loop \<open>do { id = force_reply(moves + fast_random(65535) * DIST_GAMELEN); }
  while (id == gtp_id);\<close>. The list holds the values that
  \<open>fast_random\<close> returns from now on; the rest of the list is handed back.
  The loop has not ended when the list is used up. A number outside the range of
  \<open>int\<close> is an error.
\<close>

fun new_id :: "extern \<Rightarrow> int \<Rightarrow> int \<Rightarrow> int list \<Rightarrow> (int \<times> int list) outcome" where
  "new_id X mv old [] = Blocked"
| "new_id X mv old (r # rnd) =
     (let i = force_reply X (mv + r * DIST_GAMELEN X)
      in if \<not> in_int (mv + r * DIST_GAMELEN X) \<or> \<not> in_int i then Failed Int_overflow
         else if i = old then new_id X mv old rnd else Done (i, rnd))"

text \<open>
  \<open>update_cmd\<close>: \<open>assert(gtp_cmd)\<close>, the new id with
  \<open>moves = is_reset(cmd) ? 0 : b->moves\<close>, then \<open>snprintf(gtp_cmd,
  gtp_cmds + CMDS_SIZE - gtp_cmd, "%d %s %s", id, cmd, *args ? args : "\n");
  reply_count = 0;\<close>. The text is written at \<open>gtp_cmd\<close>: what was in
  the buffer before that place stays, what was there from that place on is gone.
\<close>

definition update_cmd ::
    "extern \<Rightarrow> board \<Rightarrow> string \<Rightarrow> string \<Rightarrow> shared \<Rightarrow> int list \<Rightarrow> (shared \<times> int list) outcome" where
  "update_cmd X b cmd args st rnd =
     (case gtp_cmd st of
        None \<Rightarrow> Failed Assert_gtp_cmd
      | Some off \<Rightarrow>
          (case new_id X (if is_reset X cmd then 0 else moves b) (gtp_id st) rnd of
             Blocked \<Rightarrow> Blocked
           | Failed e \<Rightarrow> Failed e
           | Done (i, rnd') \<Rightarrow>
               if CMDS_SIZE X \<le> off \<or> length (gtp_cmds st) < off then Failed Out_of_bounds
               else Done (st\<lparr>gtp_id := i,
                              gtp_cmds := take off (gtp_cmds st)
                                @ snprintf (CMDS_SIZE X - off)
                                    (printf_d i @ '' '' @ cmd @ '' ''
                                       @ (if args \<noteq> [] then args else ''\<newline>'')),
                              reply_count := 0\<rparr>, rnd')))"

subsection \<open>\<open>distributed_notify\<close>\<close>

text \<open>
  The fields of \<open>struct distributed\<close> that the two functions use.
\<close>

record distributed =
  max_slaves :: int
  slaves_quit :: bool
  my_last_move :: move
  my_last_stats :: move_stats

datatype parse_code = P_OK

text \<open>
  The first statement of \<open>distributed_notify\<close>: the commands for which it
  returns \<open>P_OK\<close> at once.
\<close>

definition not_for_slaves :: "distributed \<Rightarrow> string \<Rightarrow> bool" where
  "not_for_slaves D cmd =
     ((\<not> strcasecmp cmd ''quit'' \<and> \<not> slaves_quit D)
      \<or> \<not> strcasecmp cmd ''uct_genbook''
      \<or> \<not> strcasecmp cmd ''uct_dumpbook''
      \<or> \<not> strcasecmp cmd ''kgs-chat'')"

text \<open>
  The branch that keeps the history: \<open>int id = prevent_reply(atoi(gtp_cmd)); int
  len = strspn(gtp_cmd, "0123456789"); char buf[32]; snprintf(buf, sizeof(buf), "%0*d",
  len, id); memcpy(gtp_cmd, buf, len); gtp_cmd += strlen(gtp_cmd);\<close>. A copy of
  more characters than \<open>buf\<close> holds is an error.
\<close>

definition keep_history :: "extern \<Rightarrow> shared \<Rightarrow> nat \<Rightarrow> error + shared" where
  "keep_history X st off =
     (let s = drop off (gtp_cmds st);
          i = prevent_reply X (atoi s);
          len = length (takeWhile isdigit s);
          buf = snprintf 32 (printf_0d len i)
      in if length buf < len then Inl Out_of_bounds
         else Inr (st\<lparr>gtp_cmds := take off (gtp_cmds st) @ take len buf @ drop len s,
                       gtp_cmd := Some (off + length s)\<rparr>))"

text \<open>
  The renaming of \<open>genmove\<close>, \<open>kgs-genmove_cleanup\<close> and
  \<open>final_score\<close>, and the test whether \<open>distributed_notify\<close>
  waits for the replies itself.
\<close>

definition slave_command :: "string \<Rightarrow> string" where
  "slave_command cmd =
     (if \<not> strcasecmp cmd ''genmove'' then ''pachi-genmoves''
      else if \<not> strcasecmp cmd ''kgs-genmove_cleanup'' then ''pachi-genmoves_cleanup''
      else if \<not> strcasecmp cmd ''final_score'' then ''final_status_list''
      else cmd)"

definition waits_for_replies :: "string \<Rightarrow> bool" where
  "waits_for_replies cmd =
     (strcasecmp cmd ''pachi-genmoves''
      \<and> strcasecmp cmd ''pachi-genmoves_cleanup''
      \<and> strcasecmp cmd ''final_status_list'')"

text \<open>
  \<open>pthread_cond_broadcast(&cmd_cond)\<close>
\<close>

definition broadcast_cmd :: "shared \<Rightarrow> shared" where
  "broadcast_cmd st = st\<lparr>cmd_broadcasts := Suc (cmd_broadcasts st)\<rparr>"

text \<open>
  \<open>distributed_notify\<close>: the filter; \<open>if (!gtp_cmd ||
  is_gamestart(cmd)) gtp_cmd = gtp_cmds;\<close> or else the branch that keeps the
  history; \<open>update_cmd(b, cmd, args)\<close> with the renamed command; the
  broadcast; and \<open>get_replies(0)\<close> unless the command is one of the three
  that the engine handles later. The reply pointer and the id of the caller are not
  used.
\<close>

definition distributed_notify ::
    "extern \<Rightarrow> distributed \<Rightarrow> board \<Rightarrow> string \<Rightarrow> string \<Rightarrow> shared \<Rightarrow> int list \<Rightarrow> event list
      \<Rightarrow> (parse_code \<times> shared \<times> int list \<times> event list) outcome" where
  "distributed_notify X D b cmd args st rnd evs =
     (if not_for_slaves D cmd then Done (P_OK, st, rnd, evs)
      else
        (case (case gtp_cmd st of
                 None \<Rightarrow> Inr (st\<lparr>gtp_cmd := Some 0\<rparr>)
               | Some off \<Rightarrow>
                   if is_gamestart X cmd then Inr (st\<lparr>gtp_cmd := Some 0\<rparr>)
                   else keep_history X st off) of
           Inl e \<Rightarrow> Failed e
         | Inr st1 \<Rightarrow>
             (case update_cmd X b (slave_command cmd) args st1 rnd of
                Blocked \<Rightarrow> Blocked
              | Failed e \<Rightarrow> Failed e
              | Done (st2, rnd') \<Rightarrow>
                  if waits_for_replies (slave_command cmd) then
                    (case get_replies 0 (broadcast_cmd st2) evs of
                       Blocked \<Rightarrow> Blocked
                     | Failed e \<Rightarrow> Failed e
                     | Done (st3, evs') \<Rightarrow> Done (P_OK, st3, rnd', evs'))
                  else Done (P_OK, broadcast_cmd st2, rnd', evs))))"

subsection \<open>\<open>distributed_genmove\<close>\<close>

text \<open>
  \<open>distributed_genmove\<close> from \<open>pthread_mutex_lock\<close> on:
  \<open>get_replies(time_limit)\<close>, \<open>select_best_move\<close>, the
  arguments \<open>snprintf(args, sizeof(args), "%s %s\n", stone2str(color),
  coord)\<close> with \<open>coord = coord2str(dist->my_last_move.coord, b)\<close>,
  \<open>update_cmd(b, "play", args)\<close> and the broadcast.
  \<open>time_limit\<close> is the \<open>long\<close> that the function has computed
  from the time settings, 0 without a limit. The log line written afterwards does not
  change the state and is left out.
\<close>

definition distributed_genmove ::
    "extern \<Rightarrow> distributed \<Rightarrow> board \<Rightarrow> int \<Rightarrow> stone \<Rightarrow> shared \<Rightarrow> int list \<Rightarrow> event list
      \<Rightarrow> (int \<times> distributed \<times> shared \<times> int list \<times> event list) outcome" where
  "distributed_genmove X D b time_limit col st rnd evs =
     (case get_replies (of_int time_limit) st evs of
        Blocked \<Rightarrow> Blocked
      | Failed e \<Rightarrow> Failed e
      | Done (st1, evs') \<Rightarrow>
          (case select_best_move X b st1 of
             Inl e \<Rightarrow> Failed e
           | Inr (best, best_stats, n_playouts, n_threads) \<Rightarrow>
               (case update_cmd X b ''play''
                       (snprintf 64 (stone2str X col @ '' '' @ coord2str X best b @ ''\<newline>''))
                       st1 rnd of
                  Blocked \<Rightarrow> Blocked
                | Failed e \<Rightarrow> Failed e
                | Done (st2, rnd') \<Rightarrow>
                    Done (best,
                          D\<lparr>my_last_move := \<lparr>coord = best, color = col\<rparr>,
                               my_last_stats := best_stats\<rparr>,
                          broadcast_cmd st2, rnd', evs'))))"

subsection \<open>The slave threads\<close>








text \<open>
  The local variables of \<open>slave_loop\<close>; \<open>to_send\<close> is a pointer
  into the command buffer like \<open>gtp_cmd\<close>, and \<open>buf\<close> is the
  text in the buffer of the thread.
\<close>

record worker =
  to_send :: "nat option"
  cmd_id :: int
  reply_id :: int
  resend :: bool
  buf :: string

definition slave_loop_entry :: "shared \<Rightarrow> bool \<Rightarrow> worker" where
  "slave_loop_entry st rs = \<lparr>to_send = gtp_cmd st, cmd_id = - 1, reply_id = - 1, resend = rs, buf = []\<rparr>"



text \<open>
  Reading the reply: \<open>*buf = '\0'; reply_id = -1; char *line = buf; while
  (fgets(line, buf + CMDS_SIZE - line, f) && *line != '\n') { ...; line +=
  strlen(line); }\<close>, where the body sets \<open>reply_id = atoi(line+1)\<close>
  when \<open>reply_id\<close> is still negative, \<open>*line\<close> is an equals
  sign or a question mark and \<open>isdigit(line[1])\<close> holds. The result is the
  text in \<open>buf\<close>, the text at \<open>line\<close> when the loop ends,
  \<open>reply_id\<close> and the input left. With one byte or less left in the buffer
  \<open>fgets\<close> returns empty lines for ever: the loop does not end.
\<close>

record reading =
  reply_text :: string
  last_line :: string
  first_id :: int
  unread :: string






subsection \<open>The reply id, as the specification reads it\<close>






subsection \<open>The command log as a list of commands\<close>

text \<open>
  Not code of the file: the command buffer cut into its lines, and the statement about
  it. \<open>log_ok\<close> says that the buffer is a list of complete lines, that
  \<open>gtp_cmd\<close> points at the last of them, that the id of the last line is
  one a slave replies to and that the ids of all lines before it are not.
\<close>

fun commands :: "string \<Rightarrow> string list" where
  "commands [] = []"
| "commands (c # s) =
     (if c = CHR ''\<newline>'' then [c] # commands s
      else (case commands s of [] \<Rightarrow> [[c]] | l # ls \<Rightarrow> (c # l) # ls))"




text \<open>
  Two states agree on the command buffer, \<open>gtp_cmd\<close>, the last id and the
  broadcasts.
\<close>

definition same_log :: "shared \<Rightarrow> shared \<Rightarrow> bool" where
  "same_log st st' =
     (gtp_cmds st' = gtp_cmds st \<and> gtp_cmd st' = gtp_cmd st \<and> gtp_id st' = gtp_id st
      \<and> cmd_broadcasts st' = cmd_broadcasts st)"




section \<open>Example states\<close>

text \<open>
  The globals right after \<open>1500 pachi-genmoves b\<close> has been broadcast, with four
  slaves working and room for four replies; the same with no slave at all; and the
  first with two replies in.
\<close>

definition st_fresh :: shared where
  "st_fresh = \<lparr>gtp_cmds = ''1500 pachi-genmoves b\<newline>'', gtp_cmd = Some 0,
     active_slaves = 4, reply_count = 0, gtp_replies = replicate 4 [], gtp_id = 1500,
     cmd_broadcasts = 1, reply_signals = 0\<rparr>"

definition st_alone :: shared where
  "st_alone = st_fresh\<lparr>active_slaves := 0\<rparr>"


text \<open>
  For the examples the parameters are filled in. The coordinate of a vertex is \<open>x
  + y * board_size\<close> with the column letters running without the letter I, -1 for
  pass and -2 for resign, and a board of 19 by 19 points has the size 21 with its
  border. These stand-ins are used to evaluate the functions on concrete inputs only.
\<close>

definition gtp_vertex :: "string \<Rightarrow> int \<Rightarrow> int" where
  "gtp_vertex s bsize =
     (if \<not> strcasecmp s ''pass'' then - 1
      else if \<not> strcasecmp s ''resign'' then - 2
      else if s = [] then 0
      else let xc = of_char (tolower (hd s)) :: int;
               x = xc - 97 - (if 105 < xc then 1 else 0) + 1
           in x + atoi (tl s) * bsize)"

definition b19 :: board where
  "b19 = \<lparr>moves = 3, board_size = 21, board_size2 = 441\<rparr>"

text \<open>
  The globals before the first command, and an engine started with \<open>max_slaves=4\<close>.
\<close>

definition st_init :: shared where
  "st_init = \<lparr>gtp_cmds = [], gtp_cmd = None, active_slaves = 0, reply_count = 0,
     gtp_replies = replicate 4 [], gtp_id = - 1, cmd_broadcasts = 0, reply_signals = 0\<rparr>"

definition d0 :: distributed where
  "d0 = \<lparr>max_slaves = 4, slaves_quit = False, my_last_move = \<lparr>coord = 0, color = S_NONE\<rparr>,
         my_last_stats = \<lparr>playouts = 0, value = Some 0\<rparr>\<rparr>"

definition coord_name :: "int \<Rightarrow> board \<Rightarrow> string" where
  "coord_name c b =
     (if c = - 1 then ''pass''
      else if c = - 2 then ''resign''
      else [''ABCDEFGHJKLMNOPQRST'' ! nat (c mod board_size b - 1)] @ dec (c div board_size b))"

definition stone_name :: "stone \<Rightarrow> string" where
  "stone_name s = (case s of S_BLACK \<Rightarrow> ''black'' | S_WHITE \<Rightarrow> ''white'' | _ \<Rightarrow> ''none'')"

text \<open>
  The example parameters: a command buffer of 1000 bytes; ids that are live from 1000
  on, with \<open>force_reply\<close> adding 1000 and \<open>prevent_reply\<close>
  taking the remainder by 1000 as the C operator \<open>%\<close> does;
  \<open>boardsize\<close> and \<open>clear_board\<close> as the commands that reset
  the move number, and \<open>boardsize\<close> as the start of a game.
\<close>

definition c_rem :: "int \<Rightarrow> int \<Rightarrow> int" where
  "c_rem a b = sgn a * (\<bar>a\<bar> mod \<bar>b\<bar>)"

definition X0 :: extern where
  "X0 = \<lparr>MAX_GAMELEN = 25,
          DIST_GAMELEN = 1000,
          force_reply = (\<lambda>i. i + 1000),
          prevent_reply = (\<lambda>i. c_rem i 1000),
          reply_disabled = (\<lambda>i. i < 1000),
          is_reset = (\<lambda>c. \<not> strcasecmp c ''boardsize'' \<or> \<not> strcasecmp c ''clear_board''),
          is_gamestart = (\<lambda>c. \<not> strcasecmp c ''boardsize''),
          str2coord = gtp_vertex, coord2str = coord_name, stone2str = stone_name, pass = - 1\<rparr>"

text \<open>
  An empty board, and the globals after each of \<open>boardsize 19\<close>,
  \<open>genmove b\<close> and the move that \<open>distributed_genmove\<close> has
  chosen, for the random draws 12, 15 and 20.
\<close>

definition b_start :: board where
  "b_start = \<lparr>moves = 0, board_size = 21, board_size2 = 441\<rparr>"

definition st_size :: shared where
  "st_size = \<lparr>gtp_cmds = ''13000 boardsize 19\<newline>'', gtp_cmd = Some 0, active_slaves = 1,
     reply_count = 1, gtp_replies = [''=13000\<newline>\<newline>'', [], [], []], gtp_id = 13000,
     cmd_broadcasts = 1, reply_signals = 1\<rparr>"

definition st_genmoves :: shared where
  "st_genmoves = \<lparr>gtp_cmds = ''00000 boardsize 19\<newline>16000 pachi-genmoves b\<newline>'',
     gtp_cmd = Some 19, active_slaves = 1,
     reply_count = 0, gtp_replies = [''=13000\<newline>\<newline>'', [], [], []], gtp_id = 16000,
     cmd_broadcasts = 2, reply_signals = 1\<rparr>"

definition st_played :: shared where
  "st_played = \<lparr>gtp_cmds = ''00000 boardsize 19\<newline>21000 play black D4\<newline>'',
     gtp_cmd = Some 19, active_slaves = 1,
     reply_count = 0, gtp_replies = [''=16000 1000 1\<newline>D4 1000 0.55\<newline>\<newline>'', [], [], []],
     gtp_id = 21000, cmd_broadcasts = 3, reply_signals = 2\<rparr>"

definition d_played :: distributed where
  "d_played = d0\<lparr>my_last_move := \<lparr>coord = 88, color = S_BLACK\<rparr>,
                  my_last_stats := \<lparr>playouts = 1000, value = Some (9227469 / 16777216)\<rparr>\<rparr>"






text \<open>
  Replies to \<open>pachi-genmoves\<close>: two replies that both count D4; a reply
  with a negative playout count; a reply with a line that does not scan and the same
  reply without that line; replies without data lines, one of them with a header that
  does not scan.
\<close>

definition reply_A :: string where
  "reply_A = ''=1500 1500 2\<newline>D4 1000 0.75\<newline>Q16 500 0.625\<newline>\<newline>''"

definition reply_B :: string where
  "reply_B = ''=1500 1700 4\<newline>D4 800 0.5\<newline>Q4 900 0.25\<newline>\<newline>''"

definition st_AB :: shared where
  "st_AB = st_fresh\<lparr>reply_count := 2, gtp_replies := [reply_A, reply_B, [], []], reply_signals := 2\<rparr>"



definition st_bad_line :: shared where
  "st_bad_line = st_fresh\<lparr>reply_count := 1,
     gtp_replies := [''=1500 100 1\<newline>foo\<newline>D4 50 0.5\<newline>\<newline>'', [], [], []],
     reply_signals := 1\<rparr>"

definition st_good_line :: shared where
  "st_good_line = st_fresh\<lparr>reply_count := 1,
     gtp_replies := [''=1500 100 1\<newline>D4 50 0.5\<newline>\<newline>'', [], [], []],
     reply_signals := 1\<rparr>"

definition st_no_data :: shared where
  "st_no_data = st_fresh\<lparr>reply_count := 3,
     gtp_replies := [''=1500 100 2\<newline>\<newline>'', ''= 1500 ok\<newline>\<newline>'', ''=1500 50 1\<newline>\<newline>'', []],
     reply_signals := 3\<rparr>"

definition st_AxB :: shared where
  "st_AxB = st_fresh\<lparr>reply_count := 3, gtp_replies := [reply_A, ''= 1500 ok\<newline>\<newline>'', reply_B, []],
     reply_signals := 3\<rparr>"

definition st_only_bad :: shared where
  "st_only_bad = st_fresh\<lparr>reply_count := 1, gtp_replies := [''= 1500 ok\<newline>\<newline>'', [], [], []],
     reply_signals := 1\<rparr>"


definition st_split :: shared where
  "st_split = st_fresh\<lparr>reply_count := 1,
     gtp_replies := [''=1 1 1\<newline>D4 50\<newline>0.5\<newline>\<newline>'', [], [], []],
     reply_signals := 1\<rparr>"

definition reply_refused :: string where
  "reply_refused =
     ''=1500 3200 6\<newline>D4 1000 0.75\<newline>Q16 500 0.625\<newline>D4 x 0.5\<newline>Q4 900 0.25\<newline>\<newline>''"

definition st_refused :: shared where
  "st_refused = st_fresh\<lparr>reply_count := 1, gtp_replies := [reply_refused, [], [], []], reply_signals := 1\<rparr>"

definition st_cut :: shared where
  "st_cut = st_fresh\<lparr>reply_count := 1,
     gtp_replies := [''=1500 3200 6\<newline>D4 1000 0.75\<newline>Q16 500 0.625\<newline>\<newline>'', [], [], []],
     reply_signals := 1\<rparr>"






section \<open>Waiting for the replies\<close>

subsection \<open>Facts about \<open>await\<close> and \<open>get_replies\<close>\<close>

lemma await_Failed:
  "await w st evs = Failed e \<Longrightarrow> e = Out_of_bounds \<or> e = Assert_active_slaves"
proof (induction w st evs rule: await.induct)
  case (2 w st buf evs)
  then show ?case by (cases "deposit buf st") (auto simp: deposit_def split: if_splits)
next
  case (4 w st evs)
  then show ?case by (cases "slave_leaves st") (auto simp: slave_leaves_def split: if_splits)
next
  case (7 ts st t evs)
  then show ?case by (cases "expired ts t") auto
qed auto

lemma await_no_deposit:
  "await w st evs = Done (t, st', evs') \<Longrightarrow> \<forall>e\<in>set evs. \<forall>buf. e \<noteq> Deposit buf \<Longrightarrow>
   reply_count st' = reply_count st \<and> (\<forall>e\<in>set evs'. \<forall>buf. e \<noteq> Deposit buf)"
proof (induction w st evs rule: await.induct)
  case (4 w st evs)
  then show ?case by (cases "slave_leaves st") (auto simp: slave_leaves_def split: if_splits)
next
  case (7 ts st t evs)
  then show ?case by (cases "expired ts t") auto
qed (auto simp: slave_enters_def)


lemma get_replies_Done_pos:
  "get_replies tlim st evs = Done (st', evs') \<Longrightarrow> 0 < reply_count st'"
proof (induction tlim st evs rule: get_replies.induct)
  case (1 tlim st evs)
  show ?case using "1.prems" "1.IH"
    by (subst (asm) get_replies.simps)
       (auto simp: get_replies_end_def split: if_splits outcome.splits)
qed

lemma get_replies_assert:
  "get_replies tlim st evs \<noteq> Failed Assert_reply_count"
proof (induction tlim st evs rule: get_replies.induct)
  case (1 tlim st evs)
  show ?case
  proof (cases "reply_count st = 0 \<or> reply_count st < active_slaves st")
    case False
    then show ?thesis by (subst get_replies.simps) (simp add: get_replies_end_def)
  next
    case loop: True
    show ?thesis
    proof (cases "await (wait_of tlim st) st evs")
      case Blocked
      then show ?thesis using loop by (subst get_replies.simps) simp
    next
      case (Failed e)
      then show ?thesis using loop await_Failed [OF Failed]
        by (subst get_replies.simps) auto
    next
      case (Done x)
      obtain now st' evs' where x: "x = (now, st', evs')" by (cases x)
      note w = Done [unfolded x]
      note IH = "1.IH" [OF loop w refl refl]
      show ?thesis
        using loop w IH
        by (subst get_replies.simps) (auto simp: get_replies_end_def)
    qed
  qed
qed

lemma get_replies_no_deposit:
  "reply_count st = 0 \<Longrightarrow> \<forall>e\<in>set evs. \<forall>buf. e \<noteq> Deposit buf \<Longrightarrow>
   get_replies tlim st evs \<noteq> Done r"
proof (induction tlim st evs rule: get_replies.induct)
  case (1 tlim st evs)
  show ?case
  proof (cases "await (wait_of tlim st) st evs")
    case Blocked
    then show ?thesis using "1.prems" by (subst get_replies.simps) simp
  next
    case (Failed e)
    then show ?thesis using "1.prems" by (subst get_replies.simps) simp
  next
    case (Done x)
    obtain now st' evs' where x: "x = (now, st', evs')" by (cases x)
    from await_no_deposit [OF Done [unfolded x] "1.prems"(2)] "1.prems"(1)
    have rc: "reply_count st' = 0" and nd: "\<forall>e\<in>set evs'. \<forall>buf. e \<noteq> Deposit buf" by auto
    have "get_replies tlim st' evs' \<noteq> Done r"
      using "1.IH"(1) [OF _ Done [unfolded x] refl refl rc rc nd] "1.prems"(1) by simp
    then show ?thesis using "1.prems"(1) Done x rc by (subst get_replies.simps) simp
  qed
qed


subsection \<open>C1: no return without a reply\<close>

text \<open>
  Claim C1. \<open>get_replies\<close> never returns while \<open>reply_count\<close> is 0. Whatever the
  deadline, the globals on entry (no slave at all included) and the events: when it
  returns, at least one reply is in; its final assertion does not fail; with no reply
  in, the wait it chooses is the plain \<open>pthread_cond_wait\<close>, also when the deadline is
  not zero; and as long as no slave thread deposits a reply it does not return, however
  many times the wait ends and however far the clock gets.
\<close>

theorem get_replies_waits_for_first_reply:
  "(\<forall>st' evs'. get_replies tlim st evs = Done (st', evs') \<longrightarrow> 1 \<le> reply_count st')
   \<and> get_replies tlim st evs \<noteq> Failed Assert_reply_count
   \<and> (reply_count st = 0 \<longrightarrow> wait_of tlim st = Cond_wait)
   \<and> (reply_count st = 0 \<and> (\<forall>e\<in>set evs. \<forall>buf. e \<noteq> Deposit buf)
        \<longrightarrow> (\<forall>r. get_replies tlim st evs \<noteq> Done r))"
  using get_replies_Done_pos [of tlim st evs] get_replies_assert [of tlim st evs]
    get_replies_no_deposit [of st evs tlim]
  by (auto simp: wait_of_def)

text \<open>
  With a deadline of 5 and no slave connected, a timeout at 6 and a wake-up at 7 leave
  the master waiting; once a slave has joined and deposited its reply the next wake-up
  lets it return, with one reply.
\<close>

theorem get_replies_waits_for_first_reply_witness:
  "reply_count st_alone = 0
   \<and> wait_of 5 st_alone = Cond_wait
   \<and> get_replies 5 st_alone [Timeout 6, Wake 7] = Blocked
   \<and> get_replies 5 st_alone [Timeout 6, Wake 7, Join, Deposit ''=1500 1 1\<newline>\<newline>'', Wake 8]
       = Done (st_alone\<lparr>active_slaves := 1, reply_count := 1,
                gtp_replies := [''=1500 1 1\<newline>\<newline>'', [], [], []], reply_signals := 1\<rparr>, [])
   \<and> 1 \<le> reply_count (st_alone\<lparr>active_slaves := 1, reply_count := 1,
                gtp_replies := [''=1500 1 1\<newline>\<newline>'', [], [], []], reply_signals := 1\<rparr>)"
proof -
  let ?evs = "[Timeout 6, Wake 7, Join, Deposit ''=1500 1 1\<newline>\<newline>'', Wake 8]"
  let ?st' = "st_alone\<lparr>active_slaves := 1, reply_count := 1,
                gtp_replies := [''=1500 1 1\<newline>\<newline>'', [], [], []], reply_signals := 1\<rparr>"
  have z: "reply_count st_alone = 0" by (simp add: st_alone_def st_fresh_def)
  have b: "get_replies 5 st_alone [Timeout 6, Wake 7] = Blocked" by code_simp
  have d: "get_replies 5 st_alone ?evs = Done (?st', [])" by code_simp
  from get_replies_waits_for_first_reply [of 5 st_alone ?evs] z d
  have "1 \<le> reply_count ?st'" and "wait_of 5 st_alone = Cond_wait" by blast+
  with z b d show ?thesis by simp
qed

subsection \<open>C4: exactly half of the slaves have replied and there is no deadline\<close>




section \<open>Commands that stay with the master\<close>

text \<open>
  Claim C8. For \<open>uct_genbook\<close>, \<open>uct_dumpbook\<close> and \<open>kgs-chat\<close>, and for
  \<open>quit\<close> when \<open>slaves_quit\<close> is false (in any mix of upper and lower case, as
  \<open>strcasecmp\<close> compares), \<open>distributed_notify\<close> returns \<open>P_OK\<close> at once. The
  globals it hands back are the ones it was given: the command buffer, \<open>gtp_cmd\<close>,
  \<open>reply_count\<close>, \<open>gtp_replies\<close> and the number of broadcasts on \<open>cmd_cond\<close>
  are untouched, and it has neither drawn a random number nor waited.
\<close>

theorem notify_passes_through:
  assumes "map tolower cmd \<in> {''uct_genbook'', ''uct_dumpbook'', ''kgs-chat''}
           \<or> (map tolower cmd = ''quit'' \<and> \<not> slaves_quit D)"
  shows "distributed_notify X D b cmd args st rnd evs = Done (P_OK, st, rnd, evs)"
proof -
  have low: "map tolower ''quit'' = ''quit''" "map tolower ''uct_genbook'' = ''uct_genbook''"
    "map tolower ''uct_dumpbook'' = ''uct_dumpbook''" "map tolower ''kgs-chat'' = ''kgs-chat''"
    by code_simp+
  from assms have "not_for_slaves D cmd"
    unfolding not_for_slaves_def strcasecmp_def low by auto
  then show ?thesis by (simp add: distributed_notify_def)
qed

text \<open>
  \<open>QUIT\<close> with \<open>slaves_quit\<close> false, and
  \<open>kgs-chat\<close> before any command was sent.
\<close>

theorem notify_passes_through_witness:
  "distributed_notify X0 d0 b19 ''QUIT'' [] st_fresh [7] [Wake 1] = Done (P_OK, st_fresh, [7], [Wake 1])
   \<and> distributed_notify X0 d0 b19 ''kgs-chat'' ''hello\<newline>'' st_init [] [] = Done (P_OK, st_init, [], [])"
proof -
  have 1: "map tolower ''QUIT'' = ''quit'' \<and> \<not> slaves_quit d0" by code_simp
  have 2: "map tolower ''kgs-chat'' \<in> {''uct_genbook'', ''uct_dumpbook'', ''kgs-chat''}" by code_simp
  show ?thesis using notify_passes_through [of "''QUIT''" d0 X0 b19 "[]" st_fresh "[7]" "[Wake 1]"]
      notify_passes_through [of "''kgs-chat''" d0 X0 b19 "''hello\<newline>''" st_init "[]" "[]"] 1 2
    by blast
qed

section \<open>The identity check of a new slave\<close>




lemma takeWhile_no_newline:
  "CHR ''\<newline>'' \<notin> set s \<Longrightarrow> takeWhile (\<lambda>c. c \<noteq> CHR ''\<newline>'') s = s"
  by (induction s) auto














section \<open>A slave thread and the reply it has read\<close>




















section \<open>The command log\<close>

subsection \<open>Decimal numbers\<close>
































lemma await_same_log: "await w st evs = Done (t, st', evs') \<Longrightarrow> same_log st st'"
proof (induction w st evs rule: await.induct)
  case (2 w st buf evs)
  then show ?case
    by (cases "deposit buf st") (auto simp: same_log_def deposit_def split: if_splits)
next
  case (3 w st evs)
  then show ?case by (auto simp: same_log_def slave_enters_def)
next
  case (4 w st evs)
  then show ?case
    by (cases "slave_leaves st") (auto simp: same_log_def slave_leaves_def split: if_splits)
next
  case (7 ts st t evs)
  then show ?case by (cases "expired ts t") (auto simp: same_log_def)
qed (auto simp: same_log_def)

lemma same_log_trans: "same_log a b \<Longrightarrow> same_log b c \<Longrightarrow> same_log a c"
  by (simp add: same_log_def)

lemma get_replies_same_log:
  "get_replies tlim st evs = Done (st', evs') \<Longrightarrow> same_log st st'"
proof (induction tlim st evs rule: get_replies.induct)
  case (1 tlim st evs)
  show ?case
  proof (cases "reply_count st = 0 \<or> reply_count st < active_slaves st")
    case False
    with "1.prems" show ?thesis
      by (subst (asm) get_replies.simps) (auto simp: get_replies_end_def same_log_def split: if_splits)
  next
    case loop: True
    show ?thesis
    proof (cases "await (wait_of tlim st) st evs")
      case Blocked
      with "1.prems" loop show ?thesis by (subst (asm) get_replies.simps) simp
    next
      case (Failed e)
      with "1.prems" loop show ?thesis by (subst (asm) get_replies.simps) simp
    next
      case (Done x)
      obtain now st1 evs1 where x: "x = (now, st1, evs1)" by (cases x)
      note w = Done [unfolded x]
      note IH = "1.IH" [OF loop w refl refl]
      have a: "same_log st st1" using w by (rule await_same_log)
      have "same_log st1 st'"
        using "1.prems" loop w IH
        by (subst (asm) get_replies.simps)
           (auto simp: get_replies_end_def same_log_def split: if_splits)
      with a show ?thesis by (rule same_log_trans)
    qed
  qed
qed









subsection \<open>Three commands in a row\<close>


lemma run2: "distributed_notify X0 d0 b_start ''genmove'' ''b\<newline>'' st_size [15] []
     = Done (P_OK, st_genmoves, [], [])"
  by code_simp

lemma run3: "distributed_genmove X0 d0 b_start 0 S_BLACK st_genmoves [20]
     [Deposit ''=16000 1000 1\<newline>D4 1000 0.55\<newline>\<newline>'', Wake 2]
     = Done (88, d_played, st_played, [], [])"
  by code_simp

lemma new_id_differs: "new_id X mv old rnd = Done (i, rnd') \<Longrightarrow> i \<noteq> old"
  by (induction X mv old rnd rule: new_id.induct) (auto simp: Let_def split: if_splits)

lemma update_cmd_writes:
  assumes up: "update_cmd X b cmd args st rnd = Done (st', rnd')" and off: "gtp_cmd st = Some off"
  shows "st' = st\<lparr>gtp_id := gtp_id st',
                   gtp_cmds := take off (gtp_cmds st)
                     @ snprintf (CMDS_SIZE X - off)
                         (printf_d (gtp_id st') @ '' '' @ cmd @ '' ''
                            @ (if args \<noteq> [] then args else ''\<newline>'')),
                   reply_count := 0\<rparr>
         \<and> gtp_id st' \<noteq> gtp_id st \<and> off \<le> length (gtp_cmds st) \<and> off < CMDS_SIZE X"
proof -
  let ?mv = "if is_reset X cmd then 0 else moves b"
  from up off obtain i where nid: "new_id X ?mv (gtp_id st) rnd = Done (i, rnd')"
    and le: "off \<le> length (gtp_cmds st)" "off < CMDS_SIZE X"
    and st': "st' = st\<lparr>gtp_id := i,
                 gtp_cmds := take off (gtp_cmds st)
                   @ snprintf (CMDS_SIZE X - off)
                       (printf_d i @ '' '' @ cmd @ '' '' @ (if args \<noteq> [] then args else ''\<newline>'')),
                 reply_count := 0\<rparr>"
    by (auto simp: update_cmd_def split: option.splits outcome.splits if_splits)
  have i: "gtp_id st' = i" by (subst st') simp
  from new_id_differs [OF nid] le st' show ?thesis unfolding i by simp
qed

lemma genmove_parts:
  assumes "distributed_genmove X D b time_limit col st rnd evs = Done (best, D', st', rnd', evs')"
  shows "\<exists>st1 st2 bs np nt. get_replies (of_int time_limit) st evs = Done (st1, evs')
           \<and> select_best_move X b st1 = Inr (best, bs, np, nt)
           \<and> update_cmd X b ''play''
                (snprintf 64 (stone2str X col @ '' '' @ coord2str X best b @ ''\<newline>'')) st1 rnd
               = Done (st2, rnd')
           \<and> st' = broadcast_cmd st2"
  using assms
  by (auto simp: distributed_genmove_def split: outcome.splits sum.splits)

text \<open>
  Claim C3 says that the \<open>pachi-genmoves\<close> command stays in the command
  buffer, with its id rewritten, and that \<open>play\<close> comes after it.
  \<open>distributed_genmove\<close> calls \<open>update_cmd\<close> without moving
  \<open>gtp_cmd\<close>, so \<open>play\<close> is written over it: after
  \<open>boardsize 19\<close> and \<open>genmove b\<close> the buffer holds two
  commands, the second being \<open>pachi-genmoves b\<close>, and after
  \<open>distributed_genmove\<close> it holds two commands again, the second being
  \<open>play black D4\<close>.
\<close>

theorem genmove_keeps_genmoves_counterexample:
  "distributed_notify X0 d0 b_start ''genmove'' ''b\<newline>'' st_size [15] []
     = Done (P_OK, st_genmoves, [], [])
   \<and> commands (gtp_cmds st_genmoves)
       = [''00000 boardsize 19\<newline>'', ''16000 pachi-genmoves b\<newline>'']
   \<and> distributed_genmove X0 d0 b_start 0 S_BLACK st_genmoves [20]
        [Deposit ''=16000 1000 1\<newline>D4 1000 0.55\<newline>\<newline>'', Wake 2]
       = Done (88, d_played, st_played, [], [])
   \<and> commands (gtp_cmds st_played)
       = [''00000 boardsize 19\<newline>'', ''21000 play black D4\<newline>'']"
proof -
  have "commands (gtp_cmds st_genmoves)
       = [''00000 boardsize 19\<newline>'', ''16000 pachi-genmoves b\<newline>'']" by code_simp
  moreover have "commands (gtp_cmds st_played)
       = [''00000 boardsize 19\<newline>'', ''21000 play black D4\<newline>'']" by code_simp
  ultimately show ?thesis using run2 run3 by simp
qed

text \<open>
  Claim C3 as amended. When \<open>distributed_genmove\<close> returns,
  \<open>gtp_cmd\<close> has not moved, the command buffer before
  \<open>gtp_cmd\<close> is unchanged, and from \<open>gtp_cmd\<close> on it holds the
  new id, \<open>play\<close>, the colour and the coordinate of the move chosen, cut to
  the room left in the buffer. The new id differs from the one before,
  \<open>reply_count\<close> is 0 and \<open>cmd_cond\<close> has been broadcast once.
\<close>

theorem genmove_overwrites_tail:
  assumes run: "distributed_genmove X D b time_limit col st rnd evs = Done (best, D', st', rnd', evs')"
    and off: "gtp_cmd st = Some off"
  shows "gtp_cmd st' = Some off \<and> off \<le> length (gtp_cmds st)
         \<and> take off (gtp_cmds st') = take off (gtp_cmds st)
         \<and> drop off (gtp_cmds st')
             = snprintf (CMDS_SIZE X - off)
                 (printf_d (gtp_id st') @ '' play ''
                    @ snprintf 64 (stone2str X col @ '' '' @ coord2str X best b @ ''\<newline>''))
         \<and> gtp_id st' \<noteq> gtp_id st \<and> reply_count st' = 0
         \<and> cmd_broadcasts st' = Suc (cmd_broadcasts st)"
proof -
  define args where "args = snprintf 64 (stone2str X col @ '' '' @ coord2str X best b @ ''\<newline>'')"
  from genmove_parts [OF run] obtain st1 st2 bs np nt where
    g: "get_replies (of_int time_limit) st evs = Done (st1, evs')"
    and up: "update_cmd X b ''play'' args st1 rnd = Done (st2, rnd')"
    and st': "st' = broadcast_cmd st2"
    unfolding args_def by blast
  from get_replies_same_log [OF g] have s: "gtp_cmds st1 = gtp_cmds st" "gtp_cmd st1 = gtp_cmd st"
    "gtp_id st1 = gtp_id st" "cmd_broadcasts st1 = cmd_broadcasts st"
    by (simp_all add: same_log_def)
  have off1: "gtp_cmd st1 = Some off" using s off by simp
  have ne: "args \<noteq> []" unfolding args_def by (cases "stone2str X col") (simp_all add: snprintf_def)
  from update_cmd_writes [OF up off1] ne have
    w: "st2 = st1\<lparr>gtp_id := gtp_id st2,
                   gtp_cmds := take off (gtp_cmds st1)
                     @ snprintf (CMDS_SIZE X - off) (printf_d (gtp_id st2) @ '' play '' @ args),
                   reply_count := 0\<rparr>"
    and neq: "gtp_id st2 \<noteq> gtp_id st1" and le: "off \<le> length (gtp_cmds st1)"
    by simp_all
  have cm: "gtp_cmds st2 = take off (gtp_cmds st)
      @ snprintf (CMDS_SIZE X - off) (printf_d (gtp_id st2) @ '' play '' @ args)"
    by (subst w) (simp add: s)
  have f: "gtp_cmd st2 = Some off" "reply_count st2 = 0" "cmd_broadcasts st2 = cmd_broadcasts st"
    by (subst w, simp add: off1 s)+
  have len: "length (take off (gtp_cmds st)) = off" using le s by simp
  have "drop off (gtp_cmds st2) = snprintf (CMDS_SIZE X - off) (printf_d (gtp_id st2) @ '' play '' @ args)"
    unfolding cm using len by simp
  moreover have "take off (gtp_cmds st2) = take off (gtp_cmds st)"
    unfolding cm using len by simp
  ultimately show ?thesis using f neq le s st' unfolding args_def by (simp add: broadcast_cmd_def)
qed

text \<open>
  The move D4 chosen after \<open>genmove b\<close>: the text from offset 19 on is
  \<open>21000 play black D4\<close>.
\<close>

theorem genmove_overwrites_tail_witness:
  "distributed_genmove X0 d0 b_start 0 S_BLACK st_genmoves [20]
        [Deposit ''=16000 1000 1\<newline>D4 1000 0.55\<newline>\<newline>'', Wake 2]
       = Done (88, d_played, st_played, [], [])
   \<and> gtp_cmd st_genmoves = Some 19
   \<and> gtp_cmd st_played = Some 19
   \<and> take 19 (gtp_cmds st_played) = take 19 (gtp_cmds st_genmoves)
   \<and> drop 19 (gtp_cmds st_played) = ''21000 play black D4\<newline>''
   \<and> gtp_id st_played \<noteq> gtp_id st_genmoves
   \<and> reply_count st_played = 0
   \<and> cmd_broadcasts st_played = Suc (cmd_broadcasts st_genmoves)"
proof -
  have off: "gtp_cmd st_genmoves = Some 19" by (simp add: st_genmoves_def)
  have tail: "drop 19 (gtp_cmds st_played) = ''21000 play black D4\<newline>''" by code_simp
  from genmove_overwrites_tail [OF run3 off] run3 off tail show ?thesis by simp
qed







section \<open>The most popular move\<close>

lemma aggregate_Nil [simp]: "aggregate [] c = 0"
  by (simp add: aggregate_def lines_for_def)

lemma aggregate_append: "aggregate (xs @ ys) c = aggregate xs c + aggregate ys c"
  by (simp add: aggregate_def lines_for_def)

lemma aggregate_single: "aggregate [(c', p, v)] c = (if c' = c then p else 0)"
  by (simp add: aggregate_def lines_for_def)

lemma aggregate_nonneg: "nonneg ls \<Longrightarrow> 0 \<le> aggregate ls c"
  by (induction ls) (auto simp: aggregate_def lines_for_def nonneg_def)

lemma merge_from_snoc:
  "merge_from s (ls @ [(p, v)])
   = (case merge_from s ls of Inl e \<Rightarrow> Inl e | Inr s' \<Rightarrow> stats_add_result s' v p)"
  by (induction s ls rule: merge_from.induct) (auto split: sum.splits)

lemma lines_for_snoc:
  "lines_for c (ls @ [(c', p, v)]) = (if c' = c then lines_for c ls @ [(p, v)] else lines_for c ls)"
  by (simp add: lines_for_def)

lemma nonneg_append: "nonneg (xs @ ys) = (nonneg xs \<and> nonneg ys)"
  by (simp add: nonneg_def)

lemma aggregate_take_le: "nonneg ls \<Longrightarrow> aggregate (take k ls) c \<le> aggregate ls c"
proof -
  assume n: "nonneg ls"
  have "ls = take k ls @ drop k ls" by simp
  then have "aggregate ls c = aggregate (take k ls) c + aggregate (drop k ls) c"
    by (metis aggregate_append)
  moreover have "nonneg (drop k ls)" using n by (metis append_take_drop_id nonneg_append)
  ultimately show ?thesis using aggregate_nonneg [of "drop k ls" c] by simp
qed

lemma merge_line_step:
  assumes inv: "agg_inv X ls a" and nn: "nonneg ls" and p: "0 \<le> p"
    and m: "merge_line X b a (mv, p, v) = Inr a'"
  shows "agg_inv X (ls @ [(str2coord X mv (board_size b), p, v)]) a'
         \<and> total_playouts a' = total_playouts a \<and> total_threads a' = total_threads a"
proof -
  let ?c = "str2coord X mv (board_size b)"
  let ?ls = "ls @ [(?c, p, v)]"
  from m obtain s where s: "stats_add_result (stats a ?c) v p = Inr s"
    and a': "a' = (if best_playouts a < playouts s
                   then a\<lparr>stats := (stats a)(?c := s), best_playouts := playouts s, best_move := ?c\<rparr>
                   else a\<lparr>stats := (stats a)(?c := s)\<rparr>)"
    by (auto simp: merge_line_def Let_def split: if_splits sum.splits)
  from s have ps: "playouts s = playouts (stats a ?c) + p"
    by (auto simp: stats_add_result_def Let_def split: if_splits)
  from inv have st: "\<And>c. playouts (stats a c) = aggregate ls c" unfolding agg_inv_def by blast
  have n: "playouts s = aggregate ?ls ?c" using ps st by (simp add: aggregate_append aggregate_single)
  have other: "c \<noteq> ?c \<Longrightarrow> aggregate ?ls c = aggregate ls c" for c
    by (simp add: aggregate_append aggregate_single)
  have stats': "playouts (stats a' c) = aggregate ?ls c" for c
    using a' n other st by (cases "c = ?c") auto
  from inv have mf: "\<And>c. merge_from zero_stats (lines_for c ls) = Inr (stats a c)"
    unfolding agg_inv_def by blast
  have merged': "merge_from zero_stats (lines_for c ?ls) = Inr (stats a' c)" for c
    using a' mf [of c] s by (cases "c = ?c") (auto simp: lines_for_snoc merge_from_snoc)
  have tot: "total_playouts a' = total_playouts a \<and> total_threads a' = total_threads a"
    using a' by simp
  have pre: "j < length ls \<Longrightarrow> take (Suc j) ?ls = take (Suc j) ls" for j by simp
  have nth: "j < length ls \<Longrightarrow> ?ls ! j = ls ! j" for j by (simp add: nth_append)
  have up: "aggregate ls c \<le> aggregate ?ls c" for c
    using p by (simp add: aggregate_append aggregate_single)
  show ?thesis
  proof (cases "best_playouts a < playouts s")
    case True
    then have b: "best_move a' = ?c" "best_playouts a' = playouts s" using a' by simp_all
    have le: "aggregate ?ls c \<le> playouts s" for c
    proof (cases "c = ?c")
      case True
      then show ?thesis using n by simp
    next
      case False
      show ?thesis
      proof (cases "ls = []")
        case True
        then show ?thesis using other [OF False] n p by (simp add: aggregate_single)
      next
        case ne: False
        with inv have "aggregate ls c \<le> best_playouts a" unfolding agg_inv_def by blast
        with True other [OF False] show ?thesis by simp
      qed
    qed
    have before: "aggregate (take (Suc j) ?ls) (fst (?ls ! j)) < aggregate ?ls ?c" if j: "j < length ls" for j
    proof -
      have ne: "ls \<noteq> []" using j by auto
      have "aggregate (take (Suc j) ls) (fst (ls ! j)) \<le> aggregate ls (fst (ls ! j))"
        using nn by (rule aggregate_take_le)
      also have "\<dots> \<le> best_playouts a" using inv ne unfolding agg_inv_def by blast
      also have "\<dots> < aggregate ?ls ?c" using True n by simp
      finally show ?thesis using pre [OF j] nth [OF j] by simp
    qed
    have "first_reach ?ls ?c"
      unfolding first_reach_def
      by (rule exI [of _ "length ls"]) (use before in simp)
    then show ?thesis
      using stats' merged' b le n tot by (simp add: agg_inv_def)
  next
    case False
    then have b: "best_move a' = best_move a" "best_playouts a' = best_playouts a" using a' by simp_all
    have ne: "ls \<noteq> []"
    proof
      assume "ls = []"
      with inv have "best_playouts a = - 1" unfolding agg_inv_def by blast
      moreover have "0 \<le> playouts s" using ps st \<open>ls = []\<close> p by simp
      ultimately show False using False by simp
    qed
    from inv ne have bp: "best_playouts a = aggregate ls (best_move a)"
      and mx: "\<And>c. aggregate ls c \<le> best_playouts a"
      and fr: "first_reach ls (best_move a)"
      unfolding agg_inv_def by blast+
    have same: "aggregate ?ls (best_move a) = aggregate ls (best_move a)"
    proof (cases "best_move a = ?c")
      case True
      have "aggregate ?ls ?c \<le> aggregate ls ?c" using False n bp True by simp
      with up [of ?c] True show ?thesis by simp
    next
      case False
      then show ?thesis by (rule other)
    qed
    have le: "aggregate ?ls c \<le> best_playouts a" for c
    proof (cases "c = ?c")
      case True
      then show ?thesis using False n by simp
    next
      case False
      then show ?thesis using other mx by simp
    qed
    from fr obtain i where i: "i < length ls" "fst (ls ! i) = best_move a"
      "aggregate (take (Suc i) ls) (best_move a) = aggregate ls (best_move a)"
      "\<forall>j<i. aggregate (take (Suc j) ls) (fst (ls ! j)) < aggregate ls (best_move a)"
      unfolding first_reach_def by blast
    have "first_reach ?ls (best_move a)"
      unfolding first_reach_def
    proof (intro exI [of _ i] conjI allI impI)
      show "i < length ?ls" using i(1) by simp
      show "fst (?ls ! i) = best_move a" using i(1,2) nth by simp
      show "aggregate (take (Suc i) ?ls) (best_move a) = aggregate ?ls (best_move a)"
        using i(1,3) same pre by simp
      fix j assume "j < i"
      then have "j < length ls" using i(1) by simp
      with \<open>j < i\<close> i(4) show "aggregate (take (Suc j) ?ls) (fst (?ls ! j)) < aggregate ?ls (best_move a)"
        using same pre nth by simp
    qed
    then show ?thesis
      using stats' merged' b le bp same tot by (simp add: agg_inv_def)
  qed
qed

lemma merge_line_totals:
  "merge_line X b a l = Inr a' \<Longrightarrow>
   total_playouts a' = total_playouts a \<and> total_threads a' = total_threads a"
  by (cases l) (auto simp: merge_line_def Let_def split: if_splits sum.splits)

lemma data_lines_totals:
  "data_lines X b a r = Inr a' \<Longrightarrow>
   total_playouts a' = total_playouts a \<and> total_threads a' = total_threads a"
proof (induction X b a r rule: data_lines.induct)
  case (1 X b a)
  then show ?case by simp
next
  case (2 X b a r)
  show ?case
  proof (cases "r = []")
    case True
    with "2.prems" show ?thesis by (simp add: data_lines.simps(2))
  next
    case ne: False
    show ?thesis
    proof (cases "scan_data (tl r)")
      case None
      with "2.prems" ne show ?thesis by (simp add: data_lines.simps(2))
    next
      case (Some l)
      show ?thesis
      proof (cases "merge_line X b a l")
        case (Inl e)
        with "2.prems" ne Some show ?thesis by (simp add: data_lines.simps(2))
      next
        case (Inr a1)
        with "2.prems" ne Some have "data_lines X b a1 (strchr (tl r) (CHR ''\<newline>'')) = Inr a'"
          by (simp add: data_lines.simps(2))
        from "2.IH" [OF ne Some Inr this] merge_line_totals [OF Inr] show ?thesis by simp
      qed
    qed
  qed
qed

lemma data_lines_inv:
  "data_lines X b a r = Inr a' \<Longrightarrow> agg_inv X ls a \<Longrightarrow> nonneg ls \<Longrightarrow>
   nonneg (counted X b (data_of r)) \<Longrightarrow> agg_inv X (ls @ counted X b (data_of r)) a'"
proof (induction X b a r arbitrary: ls rule: data_lines.induct)
  case (1 X b a)
  then show ?case by (simp add: counted_def)
next
  case (2 X b a r)
  show ?case
  proof (cases "r = []")
    case True
    with "2.prems" show ?thesis by (simp add: data_lines.simps(2))
  next
    case ne: False
    show ?thesis
    proof (cases "scan_data (tl r)")
      case None
      with "2.prems" ne show ?thesis
        by (simp add: data_lines.simps(2) data_of.simps(2) counted_def)
    next
      case (Some l)
      obtain mv p v where l: "l = (mv, p, v)" by (cases l)
      let ?rest = "data_of (strchr (tl r) (CHR ''\<newline>''))"
      have d: "data_of (Some r) = l # ?rest" using ne Some by (simp add: data_of.simps(2))
      have c: "counted X b (data_of (Some r)) = (str2coord X mv (board_size b), p, v) # counted X b ?rest"
        unfolding d l by (simp add: counted_def)
      from "2.prems"(4) have p: "0 \<le> p" and nr: "nonneg (counted X b ?rest)"
        unfolding c by (simp_all add: nonneg_def)
      show ?thesis
      proof (cases "merge_line X b a l")
        case (Inl e)
        with "2.prems" ne Some show ?thesis by (simp add: data_lines.simps(2))
      next
        case (Inr a1)
        with "2.prems" ne Some have rec: "data_lines X b a1 (strchr (tl r) (CHR ''\<newline>'')) = Inr a'"
          by (simp add: data_lines.simps(2))
        let ?ls = "ls @ [(str2coord X mv (board_size b), p, v)]"
        from merge_line_step [OF "2.prems"(2,3) p Inr [unfolded l]]
        have i1: "agg_inv X ?ls a1" by simp
        have n1: "nonneg ?ls" using "2.prems"(3) p by (simp add: nonneg_def)
        from "2.IH" [OF ne Some Inr rec i1 n1 nr] show ?thesis unfolding c by simp
      qed
    qed
  qed
qed

lemma merged_Cons: "merged X b (r # rs) = counted X b (reply_lines r) @ merged X b rs"
  by (simp add: merged_def counted_def)

lemma headers_Cons:
  "headers (r # rs) = (case scan_header r of None \<Rightarrow> headers rs | Some h \<Rightarrow> h # headers rs)"
  by (simp add: headers_def List.map_filter_simps split: option.splits)

lemma replies_loop_totals:
  "replies_loop X b a rs = Inr a' \<Longrightarrow>
   total_playouts a' = total_playouts a + sum_list (map (\<lambda>h. fst (snd h)) (headers rs))
   \<and> total_threads a' = total_threads a + sum_list (map (\<lambda>h. snd (snd h)) (headers rs))"
proof (induction rs arbitrary: a)
  case Nil
  then show ?case by (simp add: headers_def List.map_filter_simps)
next
  case (Cons r rs)
  show ?case
  proof (cases "scan_header r")
    case None
    with Cons.prems have "replies_loop X b a rs = Inr a'" by simp
    from Cons.IH [OF this] None show ?thesis by (simp add: headers_Cons)
  next
    case (Some h)
    obtain i p t where h: "h = (i, p, t)" by (cases h)
    let ?a = "a\<lparr>total_playouts := total_playouts a + p, total_threads := total_threads a + t\<rparr>"
    from Cons.prems Some h obtain a1 where
      d: "data_lines X b ?a (strchr r (CHR ''\<newline>'')) = Inr a1"
      and rec: "replies_loop X b a1 rs = Inr a'"
      by (auto split: if_splits sum.splits)
    from data_lines_totals [OF d] Cons.IH [OF rec] Some h show ?thesis
      by (simp add: headers_Cons)
  qed
qed

lemma replies_loop_inv:
  "replies_loop X b a rs = Inr a' \<Longrightarrow> agg_inv X ls a \<Longrightarrow> nonneg ls \<Longrightarrow>
   nonneg (merged X b rs) \<Longrightarrow> agg_inv X (ls @ merged X b rs) a'"
proof (induction rs arbitrary: a ls)
  case Nil
  then show ?case by (simp add: merged_def counted_def)
next
  case (Cons r rs)
  from Cons.prems(4) have n1: "nonneg (counted X b (reply_lines r))" and n2: "nonneg (merged X b rs)"
    by (simp_all add: merged_Cons nonneg_append)
  show ?case
  proof (cases "scan_header r")
    case None
    with Cons.prems have "replies_loop X b a rs = Inr a'" by simp
    from Cons.IH [OF this Cons.prems(2,3) n2] None show ?thesis
      by (simp add: merged_Cons reply_lines_def counted_def)
  next
    case (Some h)
    obtain i p t where h: "h = (i, p, t)" by (cases h)
    let ?a = "a\<lparr>total_playouts := total_playouts a + p, total_threads := total_threads a + t\<rparr>"
    from Cons.prems Some h obtain a1 where
      d: "data_lines X b ?a (strchr r (CHR ''\<newline>'')) = Inr a1"
      and rec: "replies_loop X b a1 rs = Inr a'"
      by (auto split: if_splits sum.splits)
    have rl: "reply_lines r = data_of (strchr r (CHR ''\<newline>''))" using Some by (simp add: reply_lines_def)
    have "agg_inv X ls ?a" using Cons.prems(2) by (auto simp: agg_inv_def)
    from data_lines_inv [OF d this Cons.prems(3) n1 [unfolded rl]]
    have i1: "agg_inv X (ls @ counted X b (reply_lines r)) a1" by (simp add: rl)
    have n: "nonneg (ls @ counted X b (reply_lines r))" using Cons.prems(3) n1 by (simp add: nonneg_append)
    from Cons.IH [OF rec i1 n n2] show ?thesis by (simp add: merged_Cons)
  qed
qed

lemma agg_inv_init: "agg_inv X [] (aggregator_init X)"
  by (simp add: agg_inv_def aggregator_init_def lines_for_def zero_stats_def)








section \<open>Replies and lines that do not parse\<close>

lemma strchr_nonempty: "strchr s c = Some r \<Longrightarrow> r \<noteq> []"
proof -
  assume a: "strchr s c = Some r"
  then have "c \<in> set s" and r: "r = dropWhile (\<lambda>x. x \<noteq> c) s"
    by (auto simp: strchr_def split: if_splits)
  then have "dropWhile (\<lambda>x. x \<noteq> c) s \<noteq> []" by (simp add: dropWhile_eq_Nil_conv)
  with r show ?thesis by simp
qed

lemma data_lines_stop:
  "scan_data l = None \<Longrightarrow> data_lines X b a (Some (c # l)) = Inr a"
  by (simp add: data_lines.simps(2))

lemma data_lines_none:
  assumes "data_of r = []" and "r \<noteq> Some []"
  shows "data_lines X b a r = Inr a"
proof (cases r)
  case None
  then show ?thesis by simp
next
  case (Some s)
  with assms(2) have ne: "s \<noteq> []" by simp
  with assms(1) Some have "scan_data (tl s) = None"
    by (auto simp: data_of.simps(2) split: option.splits)
  with ne Some show ?thesis by (simp add: data_lines.simps(2))
qed

lemma replies_loop_skip:
  "scan_header r = None \<Longrightarrow> replies_loop X b a (rs1 @ r # rs2) = replies_loop X b a (rs1 @ rs2)"
proof (induction rs1 arbitrary: a)
  case Nil
  then show ?case by simp
next
  case (Cons x rs1)
  then show ?case by (auto split: option.splits sum.splits)
qed

section \<open>Replies without data\<close>

lemma replies_loop_headers_only:
  assumes "\<forall>r\<in>set rs. reply_lines r = []"
    and "\<forall>h\<in>set (headers rs). in_int (fst h) \<and> 0 \<le> fst (snd h) \<and> 0 \<le> snd (snd h)"
    and "0 \<le> total_playouts a" and "0 \<le> total_threads a"
    and "total_playouts a + sum_list (map (\<lambda>h. fst (snd h)) (headers rs)) \<le> 2147483647"
    and "total_threads a + sum_list (map (\<lambda>h. snd (snd h)) (headers rs)) \<le> 2147483647"
  shows "replies_loop X b a rs
         = Inr (a\<lparr>total_playouts := total_playouts a + sum_list (map (\<lambda>h. fst (snd h)) (headers rs)),
                  total_threads := total_threads a + sum_list (map (\<lambda>h. snd (snd h)) (headers rs))\<rparr>)"
  using assms
proof (induction rs arbitrary: a)
  case Nil
  then show ?case by (simp add: headers_def List.map_filter_simps)
next
  case (Cons r rs)
  show ?case
  proof (cases "scan_header r")
    case None
    with Cons.prems have "replies_loop X b a rs
         = Inr (a\<lparr>total_playouts := total_playouts a + sum_list (map (\<lambda>h. fst (snd h)) (headers rs)),
                  total_threads := total_threads a + sum_list (map (\<lambda>h. snd (snd h)) (headers rs))\<rparr>)"
      by (intro Cons.IH) (simp_all add: headers_Cons)
    with None show ?thesis by (simp add: headers_Cons)
  next
    case (Some h)
    obtain i p t where h: "h = (i, p, t)" by (cases h)
    let ?a = "a\<lparr>total_playouts := total_playouts a + p, total_threads := total_threads a + t\<rparr>"
    have hs: "headers (r # rs) = (i, p, t) # headers rs" using Some h by (simp add: headers_Cons)
    from Cons.prems(2) have ok: "in_int i" "0 \<le> p" "0 \<le> t"
      and rest: "\<forall>h\<in>set (headers rs). in_int (fst h) \<and> 0 \<le> fst (snd h) \<and> 0 \<le> snd (snd h)"
      unfolding hs by simp_all
    have sp: "0 \<le> sum_list (map (\<lambda>h. fst (snd h)) (headers rs))"
      and st: "0 \<le> sum_list (map (\<lambda>h. snd (snd h)) (headers rs))"
      using rest by (auto intro!: sum_list_nonneg)
    from Cons.prems(3-6) ok sp st have rng: "in_int p" "in_int t"
      "in_int (total_playouts a + p)" "in_int (total_threads a + t)"
      unfolding hs by (simp_all add: in_int_def)
    from Cons.prems(1) Some have "data_of (strchr r (CHR ''\<newline>'')) = []"
      by (simp add: reply_lines_def)
    moreover have "strchr r (CHR ''\<newline>'') \<noteq> Some []" using strchr_nonempty by blast
    ultimately have d: "data_lines X b ?a (strchr r (CHR ''\<newline>'')) = Inr ?a"
      by (rule data_lines_none)
    have "replies_loop X b ?a rs
         = Inr (?a\<lparr>total_playouts := total_playouts ?a + sum_list (map (\<lambda>h. fst (snd h)) (headers rs)),
                  total_threads := total_threads ?a + sum_list (map (\<lambda>h. snd (snd h)) (headers rs))\<rparr>)"
      using Cons.prems ok rest unfolding hs by (intro Cons.IH) (simp_all add: add.assoc)
    with Some h ok rng d show ?thesis unfolding hs by (simp add: add.assoc)
  qed
qed

lemma merged_empty: "(\<forall>r\<in>set rs. reply_lines r = []) \<Longrightarrow> merged X b rs = []"
  by (simp add: merged_def counted_def)

lemma select_best_move_no_lines:
  assumes nodata: "\<forall>r\<in>set (take (reply_count st) (gtp_replies st)). reply_lines r = []"
  shows "(select_best_move X b st = Inr (best, bs, np, nt) \<longrightarrow>
            best = pass X \<and> bs = zero_stats
            \<and> np = sum_list (map (\<lambda>h. fst (snd h)) (headers (take (reply_count st) (gtp_replies st))))
            \<and> nt = sum_list (map (\<lambda>h. snd (snd h)) (headers (take (reply_count st) (gtp_replies st)))))
       \<and> (0 < reply_count st \<and> reply_count st \<le> length (gtp_replies st) \<and> in_stats b (pass X)
          \<and> (\<forall>h\<in>set (headers (take (reply_count st) (gtp_replies st))).
                in_int (fst h) \<and> 0 \<le> fst (snd h) \<and> 0 \<le> snd (snd h))
          \<and> sum_list (map (\<lambda>h. fst (snd h)) (headers (take (reply_count st) (gtp_replies st)))) \<le> 2147483647
          \<and> sum_list (map (\<lambda>h. snd (snd h)) (headers (take (reply_count st) (gtp_replies st)))) \<le> 2147483647
          \<longrightarrow> select_best_move X b st
              = Inr (pass X, zero_stats,
                     sum_list (map (\<lambda>h. fst (snd h)) (headers (take (reply_count st) (gtp_replies st)))),
                     sum_list (map (\<lambda>h. snd (snd h)) (headers (take (reply_count st) (gtp_replies st))))))"
proof -
  let ?rs = "take (reply_count st) (gtp_replies st)"
  have empty: "merged X b ?rs = []" using nodata by (rule merged_empty)
  have A: "best = pass X \<and> bs = zero_stats
            \<and> np = sum_list (map (\<lambda>h. fst (snd h)) (headers ?rs))
            \<and> nt = sum_list (map (\<lambda>h. snd (snd h)) (headers ?rs))"
    if res: "select_best_move X b st = Inr (best, bs, np, nt)"
  proof -
    from res obtain a where l: "replies_loop X b (aggregator_init X) ?rs = Inr a"
      and r: "best = best_move a" "bs = stats a (best_move a)" "np = total_playouts a" "nt = total_threads a"
      by (auto simp: select_best_move_def split: if_splits sum.splits)
    from replies_loop_inv [OF l agg_inv_init] empty have inv: "agg_inv X [] a"
      by (simp add: nonneg_def)
    then have "best_move a = pass X" and "\<And>c. merge_from zero_stats (lines_for c []) = Inr (stats a c)"
      unfolding agg_inv_def by blast+
    then have b: "best = pass X" and s: "bs = zero_stats" using r by (simp_all add: lines_for_def)
    from replies_loop_totals [OF l] r have
      "np = sum_list (map (\<lambda>h. fst (snd h)) (headers ?rs))"
      "nt = sum_list (map (\<lambda>h. snd (snd h)) (headers ?rs))"
      by (simp_all add: aggregator_init_def)
    with b s show ?thesis by simp
  qed
  have B: "select_best_move X b st
              = Inr (pass X, zero_stats,
                     sum_list (map (\<lambda>h. fst (snd h)) (headers ?rs)),
                     sum_list (map (\<lambda>h. snd (snd h)) (headers ?rs)))"
    if a: "0 < reply_count st \<and> reply_count st \<le> length (gtp_replies st) \<and> in_stats b (pass X)
          \<and> (\<forall>h\<in>set (headers ?rs). in_int (fst h) \<and> 0 \<le> fst (snd h) \<and> 0 \<le> snd (snd h))
          \<and> sum_list (map (\<lambda>h. fst (snd h)) (headers ?rs)) \<le> 2147483647
          \<and> sum_list (map (\<lambda>h. snd (snd h)) (headers ?rs)) \<le> 2147483647"
  proof -
    have "replies_loop X b (aggregator_init X) ?rs
         = Inr ((aggregator_init X)\<lparr>total_playouts := total_playouts (aggregator_init X)
                    + sum_list (map (\<lambda>h. fst (snd h)) (headers ?rs)),
                  total_threads := total_threads (aggregator_init X)
                    + sum_list (map (\<lambda>h. snd (snd h)) (headers ?rs))\<rparr>)"
      using nodata a by (intro replies_loop_headers_only) (simp_all add: aggregator_init_def)
    with a show ?thesis
      by (simp add: select_best_move_def aggregator_init_def zero_stats_def)
  qed
  from A B show ?thesis by blast
qed

section \<open>Replies read line by line\<close>

text \<open>
  \<open>select_best_move\<close> does not cut a reply into lines. It scans at the start
  of the reply and then at each place that follows the newline after the place of the
  last scan, and a scan runs over newlines as over any white space. The lemmas of this
  section show when this amounts to reading line by line: a scan that is complete, or
  that has stopped at a character, is not changed by a newline and more text behind it;
  therefore a reply that is \<open>line_wise\<close> gives the loops the header of its
  first line and the data lines up to the first line that does not parse.
\<close>

subsection \<open>A newline after a scan\<close>

lemma nl_facts:
  "\<not> isdigit (CHR ''\<newline>'')" "\<not> isxdigit (CHR ''\<newline>'')" "isspace (CHR ''\<newline>'')"
  "tolower (CHR ''\<newline>'') = CHR ''\<newline>''"
  by (simp_all add: isdigit_def isxdigit_def isspace_def tolower_def)

lemma takeWhile_nl:
  "\<not> P (CHR ''\<newline>'') \<Longrightarrow> takeWhile P (t @ CHR ''\<newline>'' # x) = takeWhile P t"
  by (induction t) auto

lemma dropWhile_nl:
  "\<not> P (CHR ''\<newline>'') \<Longrightarrow> dropWhile P (t @ CHR ''\<newline>'' # x) = dropWhile P t @ CHR ''\<newline>'' # x"
  by (induction t) auto

lemma unsigned_nl: "unsigned (t @ CHR ''\<newline>'' # x) = unsigned t @ CHR ''\<newline>'' # x"
  by (cases t) (auto simp: unsigned_def)

lemma negative_nl: "negative (t @ CHR ''\<newline>'' # x) = negative t"
  by (cases t) (auto simp: negative_def)

lemma scan_d_nl:
  "scan_d (t @ CHR ''\<newline>'' # x) = map_option (\<lambda>(v, r). (v, r @ CHR ''\<newline>'' # x)) (scan_d t)"
  by (simp add: scan_d_def Let_def unsigned_nl negative_nl takeWhile_nl dropWhile_nl nl_facts)

lemma scan_s_nl:
  "scan_s w (t @ CHR ''\<newline>'' # x) = map_option (\<lambda>(tok, r). (tok, r @ CHR ''\<newline>'' # x)) (scan_s w t)"
proof -
  have tw: "takeWhile (\<lambda>c. \<not> isspace c) (t @ CHR ''\<newline>'' # x) = takeWhile (\<lambda>c. \<not> isspace c) t"
    by (rule takeWhile_nl) (simp add: nl_facts)
  have "length (takeWhile (\<lambda>c. \<not> isspace c) t) \<le> length t" by (rule length_takeWhile_le)
  then have "length (take w (takeWhile (\<lambda>c. \<not> isspace c) t)) \<le> length t" by simp
  then show ?thesis unfolding scan_s_def Let_def tw by simp
qed

lemma match_ci_nl:
  "CHR ''\<newline>'' \<notin> set w \<Longrightarrow>
   match_ci w (t @ CHR ''\<newline>'' # x) = map_option (\<lambda>r. r @ CHR ''\<newline>'' # x) (match_ci w t)"
proof (induction w t rule: match_ci.induct)
  case (1 s)
  then show ?case by simp
next
  case (2 c w)
  then show ?case by (auto simp: nl_facts)
next
  case (3 c w a s)
  then show ?case by simp
qed

lemma scan_exponent_nl:
  "letter \<noteq> CHR ''\<newline>'' \<Longrightarrow>
   scan_exponent letter (t @ CHR ''\<newline>'' # x)
   = (case scan_exponent letter t of (e, r) \<Rightarrow> (e, r @ CHR ''\<newline>'' # x))"
  by (cases t)
     (auto simp: scan_exponent_def Let_def unsigned_nl negative_nl takeWhile_nl dropWhile_nl nl_facts)

lemma fraction_nl:
  "\<not> digit (CHR ''\<newline>'') \<Longrightarrow>
   fraction digit (d @ CHR ''\<newline>'' # x)
   = (case fraction digit d of (p, fp, r) \<Rightarrow> (p, fp, r @ CHR ''\<newline>'' # x))"
  by (cases d) (auto simp: fraction_def takeWhile_nl dropWhile_nl)

lemma scan_decimal_nl:
  "scan_decimal (t @ CHR ''\<newline>'' # x)
   = map_option (\<lambda>(v, r). (v, r @ CHR ''\<newline>'' # x)) (scan_decimal t)"
proof -
  let ?y = "CHR ''\<newline>'' # x"
  have ip: "takeWhile isdigit (t @ ?y) = takeWhile isdigit t"
    by (rule takeWhile_nl) (simp add: nl_facts)
  have s1: "dropWhile isdigit (t @ ?y) = dropWhile isdigit t @ ?y"
    by (rule dropWhile_nl) (simp add: nl_facts)
  have fr: "fraction isdigit (d @ ?y) = (case fraction isdigit d of (p, fp, r) \<Rightarrow> (p, fp, r @ ?y))" for d
    by (rule fraction_nl) (simp add: nl_facts)
  have ex: "scan_exponent (CHR ''e'') (r @ ?y)
      = (case scan_exponent (CHR ''e'') r of (e, r') \<Rightarrow> (e, r' @ ?y))" for r
    by (rule scan_exponent_nl) simp
  show ?thesis
    unfolding scan_decimal_def ip s1 fr
    by (simp add: ex split: prod.splits)
qed

lemma scan_hex_nl:
  "scan_hex (t @ CHR ''\<newline>'' # x)
   = map_option (\<lambda>(v, r). (v, r @ CHR ''\<newline>'' # x)) (scan_hex t)"
proof -
  let ?y = "CHR ''\<newline>'' # x"
  have ip: "takeWhile isxdigit (t @ ?y) = takeWhile isxdigit t"
    by (rule takeWhile_nl) (simp add: nl_facts)
  have s1: "dropWhile isxdigit (t @ ?y) = dropWhile isxdigit t @ ?y"
    by (rule dropWhile_nl) (simp add: nl_facts)
  have fr: "fraction isxdigit (d @ ?y) = (case fraction isxdigit d of (p, fp, r) \<Rightarrow> (p, fp, r @ ?y))" for d
    by (rule fraction_nl) (simp add: nl_facts)
  have ex: "scan_exponent (CHR ''p'') (r @ ?y)
      = (case scan_exponent (CHR ''p'') r of (e, r') \<Rightarrow> (e, r' @ ?y))" for r
    by (rule scan_exponent_nl) simp
  show ?thesis
    unfolding scan_hex_def ip s1 fr
    by (auto simp: ex split: prod.splits)
qed

lemma hex_prefix_nl:
  "(map tolower (take 2 (u @ CHR ''\<newline>'' # x)) = ''0x'') = (map tolower (take 2 u) = ''0x'')"
proof (cases u)
  case Nil
  then show ?thesis by (simp add: nl_facts)
next
  case (Cons a u')
  then show ?thesis by (cases u') (auto simp: nl_facts)
qed

lemma drop2_nl:
  "map tolower (take 2 u) = ''0x'' \<Longrightarrow> drop 2 (u @ CHR ''\<newline>'' # x) = drop 2 u @ CHR ''\<newline>'' # x"
proof -
  assume "map tolower (take 2 u) = ''0x''"
  then have "length (take 2 u) = 2" by (metis length_map length_Cons list.size(3) numeral_2_eq_2)
  then have "2 \<le> length u" by simp
  then show ?thesis by simp
qed

lemma hd_i_nl:
  "(r @ CHR ''\<newline>'' # x \<noteq> [] \<and> tolower (hd (r @ CHR ''\<newline>'' # x)) = CHR ''i'')
   = (r \<noteq> [] \<and> tolower (hd r) = CHR ''i'')"
  by (cases r) (auto simp: nl_facts)

lemma scan_f_nl:
  "scan_f (t @ CHR ''\<newline>'' # x)
   = map_option (\<lambda>(v, r). (v, r @ CHR ''\<newline>'' # x)) (scan_f t)"
proof -
  let ?y = "CHR ''\<newline>'' # x"
  let ?u = "unsigned t"
  have m1: "match_ci ''nan'' (?u @ ?y) = map_option (\<lambda>r. r @ ?y) (match_ci ''nan'' ?u)"
    by (rule match_ci_nl) simp
  have m2: "match_ci ''inf'' (?u @ ?y) = map_option (\<lambda>r. r @ ?y) (match_ci ''inf'' ?u)"
    by (rule match_ci_nl) simp
  have m3: "match_ci ''inity'' (r @ ?y) = map_option (\<lambda>r. r @ ?y) (match_ci ''inity'' r)" for r
    by (rule match_ci_nl) simp
  show ?thesis
  proof (cases "match_ci ''nan'' ?u")
    case (Some r)
    then show ?thesis unfolding scan_f_def unsigned_nl m1 by simp
  next
    case nan: None
    show ?thesis
    proof (cases "match_ci ''inf'' ?u")
      case (Some r)
      show ?thesis
      proof (cases "r \<noteq> [] \<and> tolower (hd r) = CHR ''i''")
        case True
        then have "r @ ?y \<noteq> [] \<and> tolower (hd (r @ ?y)) = CHR ''i''" by (cases r) auto
        with True nan Some show ?thesis
          unfolding scan_f_def unsigned_nl m1 m2 by (simp add: m3 split: option.splits)
      next
        case False
        then have "\<not> (r @ ?y \<noteq> [] \<and> tolower (hd (r @ ?y)) = CHR ''i'')"
          by (cases r) (auto simp: nl_facts)
        with False nan Some show ?thesis
          unfolding scan_f_def unsigned_nl m1 m2 by auto
      qed
    next
      case inf: None
      show ?thesis
      proof (cases "map tolower (take 2 ?u) = ''0x''")
        case True
        then have h: "map tolower (take 2 (?u @ ?y)) = ''0x''" by (subst hex_prefix_nl)
        from True nan inf show ?thesis
          unfolding scan_f_def unsigned_nl negative_nl m1 m2 h drop2_nl [OF True]
          by (simp add: scan_hex_nl split: option.splits)
      next
        case False
        then have h: "map tolower (take 2 (?u @ ?y)) \<noteq> ''0x''" by (subst hex_prefix_nl)
        from False nan inf h show ?thesis
          unfolding scan_f_def unsigned_nl negative_nl m1 m2
          by (simp add: scan_decimal_nl split: option.splits)
      qed
    qed
  qed
qed

lemma scan_empty: "\<exists>n. scan ds [] vs = (n, vs, []) \<and> n \<le> int (length vs)"
  by (induction ds "[]::string" vs rule: scan.induct)
     (auto simp: stopped_def input_failure_def EOF_def)

lemma dropWhile_keep:
  "dropWhile P s \<noteq> [] \<Longrightarrow> dropWhile P (s @ y) = dropWhile P s @ y"
  by (induction s) auto

lemma scan_step:
  assumes "dropWhile isspace s = t" and "t \<noteq> []"
  shows "scan (Conv_d # ds) s vs
         = (case scan_d t of None \<Rightarrow> stopped vs t
            | Some (v, rest) \<Rightarrow> scan ds rest (vs @ [Int_val v]))"
    and "scan (Conv_s w # ds) s vs
         = (case scan_s w t of None \<Rightarrow> stopped vs t
            | Some (v, rest) \<Rightarrow> scan ds rest (vs @ [Str_val v]))"
    and "scan (Conv_f # ds) s vs
         = (case scan_f t of None \<Rightarrow> stopped vs t
            | Some (v, rest) \<Rightarrow> scan ds rest (vs @ [Flt_val v]))"
  using assms by (auto simp: Let_def)

lemma scan_input_failure:
  assumes "dropWhile isspace s = []" and "is_conv d"
  shows "scan (d # ds) s vs = input_failure vs"
  using assms by (cases d) (auto simp: Let_def is_conv_def)

lemma scan_convs_nl:
  assumes "list_all is_conv ds" and "scan ds s vs = (n, vs', r)"
    and "r \<noteq> [] \<or> n = int (length vs) + int (length ds)"
  shows "\<exists>r'. scan ds (s @ CHR ''\<newline>'' # x) vs = (n, vs', r')"
  using assms
proof (induction ds arbitrary: s vs)
  case Nil
  then show ?case by (auto simp: stopped_def)
next
  case (Cons d ds)
  let ?y = "CHR ''\<newline>'' # x"
  let ?t = "dropWhile isspace s"
  from Cons.prems(1) have conv: "is_conv d" and rest: "list_all is_conv ds" by simp_all
  show ?case
  proof (cases "?t = []")
    case True
    from scan_input_failure [OF True conv, of ds vs] Cons.prems(2)
    have "r = []" and "n \<le> int (length vs)"
      by (auto simp: input_failure_def EOF_def split: if_splits)
    with Cons.prems(3) show ?thesis by simp
  next
    case False
    then have t: "dropWhile isspace (s @ ?y) = ?t @ ?y" by (rule dropWhile_keep)
    have ne: "?t @ ?y \<noteq> []" by simp
    note here = scan_step [OF refl False, where ds = ds and vs = vs]
    note there = scan_step [OF t ne, where ds = ds and vs = vs]
    show ?thesis
    proof (cases d)
      case (Lit c)
      with conv show ?thesis by (simp add: is_conv_def)
    next
      case Blank
      with conv show ?thesis by (simp add: is_conv_def)
    next
      case Conv_d
      show ?thesis
      proof (cases "scan_d ?t")
        case None
        with Cons.prems(2) show ?thesis
          unfolding Conv_d here(1) there(1) scan_d_nl by (auto simp: stopped_def)
      next
        case (Some a)
        obtain v r1 where a: "a = (v, r1)" by (cases a)
        from Some a Cons.prems(2)
        have s: "scan ds r1 (vs @ [Int_val v]) = (n, vs', r)" unfolding Conv_d here(1) by simp
        from Cons.prems(3) have "r \<noteq> [] \<or> n = int (length (vs @ [Int_val v])) + int (length ds)"
          by auto
        from Cons.IH [OF rest s this] Some a show ?thesis
          unfolding Conv_d there(1) scan_d_nl by simp
      qed
    next
      case (Conv_s w)
      show ?thesis
      proof (cases "scan_s w ?t")
        case None
        with Cons.prems(2) show ?thesis
          unfolding Conv_s here(2) there(2) scan_s_nl by (auto simp: stopped_def)
      next
        case (Some a)
        obtain v r1 where a: "a = (v, r1)" by (cases a)
        from Some a Cons.prems(2)
        have s: "scan ds r1 (vs @ [Str_val v]) = (n, vs', r)" unfolding Conv_s here(2) by simp
        from Cons.prems(3) have "r \<noteq> [] \<or> n = int (length (vs @ [Str_val v])) + int (length ds)"
          by auto
        from Cons.IH [OF rest s this] Some a show ?thesis
          unfolding Conv_s there(2) scan_s_nl by simp
      qed
    next
      case Conv_f
      show ?thesis
      proof (cases "scan_f ?t")
        case None
        with Cons.prems(2) show ?thesis
          unfolding Conv_f here(3) there(3) scan_f_nl by (auto simp: stopped_def)
      next
        case (Some a)
        obtain v r1 where a: "a = (v, r1)" by (cases a)
        from Some a Cons.prems(2)
        have s: "scan ds r1 (vs @ [Flt_val v]) = (n, vs', r)" unfolding Conv_f here(3) by simp
        from Cons.prems(3) have "r \<noteq> [] \<or> n = int (length (vs @ [Flt_val v])) + int (length ds)"
          by auto
        from Cons.IH [OF rest s this] Some a show ?thesis
          unfolding Conv_f there(3) scan_f_nl by simp
      qed
    qed
  qed
qed

lemma data_format_scan:
  "scan data_format s [] = scan [Conv_s 63, Conv_d, Conv_f] s []"
  by (simp add: data_format_def Let_def split: option.splits)

lemma header_format_scan:
  "scan header_format s [] = scan (Lit (CHR ''='') # [Conv_d, Conv_d, Conv_d]) s []"
  by (simp add: header_format_def Let_def split: option.splits)

lemma scan_data_nl:
  assumes "scan data_format l [] = (n, vs, r)" and "r \<noteq> [] \<or> n = 3"
  shows "sscanf (l @ CHR ''\<newline>'' # x) data_format = (n, vs)"
proof -
  have "list_all is_conv [Conv_s 63, Conv_d, Conv_f]" by (simp add: is_conv_def)
  from scan_convs_nl [OF this assms(1) [unfolded data_format_scan], of x] assms(2)
  show ?thesis by (auto simp: sscanf_def data_format_scan)
qed

lemma scan_header_nl:
  assumes "scan header_format l [] = (n, vs, r)" and "r \<noteq> [] \<or> n = 3"
  shows "sscanf (l @ CHR ''\<newline>'' # x) header_format = (n, vs)"
proof (cases l)
  case Nil
  with assms show ?thesis by (auto simp: header_format_def input_failure_def EOF_def)
next
  case (Cons c l')
  show ?thesis
  proof (cases "c = CHR ''=''")
    case False
    with Cons assms show ?thesis
      by (auto simp: header_format_def sscanf_def stopped_def)
  next
    case True
    have c: "list_all is_conv [Conv_d, Conv_d, Conv_d]" by (simp add: is_conv_def)
    from True Cons assms(1) have "scan [Conv_d, Conv_d, Conv_d] l' [] = (n, vs, r)"
      unfolding header_format_scan by simp
    from scan_convs_nl [OF c this, of x] assms(2) True Cons show ?thesis
      by (auto simp: sscanf_def header_format_scan)
  qed
qed

lemma scan_data_line:
  "scan_data l = Some v \<Longrightarrow> scan_data (l @ CHR ''\<newline>'' # x) = Some v"
proof -
  assume a: "scan_data l = Some v"
  obtain n vs r where s: "scan data_format l [] = (n, vs, r)" by (cases "scan data_format l []")
  with a have n: "n = 3" by (auto simp: scan_data_def sscanf_def split: list.splits scanned.splits if_splits)
  from scan_data_nl [OF s, of x] n have "sscanf (l @ CHR ''\<newline>'' # x) data_format = sscanf l data_format"
    using s by (simp add: sscanf_def)
  with a show ?thesis by (simp add: scan_data_def)
qed

lemma scan_header_line:
  "scan_header l = Some v \<Longrightarrow> scan_header (l @ CHR ''\<newline>'' # x) = Some v"
proof -
  assume a: "scan_header l = Some v"
  obtain n vs r where s: "scan header_format l [] = (n, vs, r)" by (cases "scan header_format l []")
  with a have n: "n = 3" by (auto simp: scan_header_def sscanf_def split: list.splits scanned.splits if_splits)
  from scan_header_nl [OF s, of x] n have "sscanf (l @ CHR ''\<newline>'' # x) header_format = sscanf l header_format"
    using s by (simp add: sscanf_def)
  with a show ?thesis by (simp add: scan_header_def)
qed

lemma refused_data:
  "refused data_format l \<Longrightarrow> scan_data l = None \<and> scan_data (l @ CHR ''\<newline>'' # x) = None"
proof -
  assume a: "refused data_format l"
  obtain n vs r where s: "scan data_format l [] = (n, vs, r)" by (cases "scan data_format l []")
  with a have n: "n \<noteq> 3" "r \<noteq> []" by (auto simp: refused_def)
  from scan_data_nl [OF s, of x] n have "sscanf (l @ CHR ''\<newline>'' # x) data_format = (n, vs)" by simp
  with n s show ?thesis
    by (auto simp: scan_data_def sscanf_def split: list.splits scanned.splits)
qed

lemma refused_header:
  "refused header_format l \<Longrightarrow> scan_header l = None \<and> scan_header (l @ CHR ''\<newline>'' # x) = None"
proof -
  assume a: "refused header_format l"
  obtain n vs r where s: "scan header_format l [] = (n, vs, r)" by (cases "scan header_format l []")
  with a have n: "n \<noteq> 3" "r \<noteq> []" by (auto simp: refused_def)
  from scan_header_nl [OF s, of x] n have "sscanf (l @ CHR ''\<newline>'' # x) header_format = (n, vs)" by simp
  with n s show ?thesis
    by (auto simp: scan_header_def sscanf_def split: list.splits scanned.splits)
qed

lemma strchr_line:
  "CHR ''\<newline>'' \<notin> set l \<Longrightarrow> strchr (l @ CHR ''\<newline>'' # x) (CHR ''\<newline>'') = Some (CHR ''\<newline>'' # x)"
  by (induction l) (auto simp: strchr_def)

lemma data_of_lines:
  assumes "\<forall>d\<in>set ds. CHR ''\<newline>'' \<notin> set d \<and> scan_data d \<noteq> None"
  shows "data_of (Some (CHR ''\<newline>'' # concat (map (\<lambda>d. d @ ''\<newline>'') ds) @ tail))
         = map (\<lambda>d. the (scan_data d)) ds @ data_of (Some (CHR ''\<newline>'' # tail))"
  using assms
proof (induction ds)
  case Nil
  then show ?case by simp
next
  case (Cons d ds)
  let ?rest = "concat (map (\<lambda>d. d @ ''\<newline>'') ds) @ tail"
  from Cons.prems obtain v where v: "scan_data d = Some v" and nl: "CHR ''\<newline>'' \<notin> set d" by auto
  have 1: "scan_data (d @ CHR ''\<newline>'' # ?rest) = Some v" using v by (rule scan_data_line)
  have 2: "strchr (d @ CHR ''\<newline>'' # ?rest) (CHR ''\<newline>'') = Some (CHR ''\<newline>'' # ?rest)"
    using nl by (rule strchr_line)
  have "data_of (Some (CHR ''\<newline>'' # (d @ CHR ''\<newline>'' # ?rest)))
      = v # data_of (Some (CHR ''\<newline>'' # ?rest))"
    by (subst data_of.simps(2)) (simp add: 1 2)
  with Cons v show ?case by simp
qed

lemma data_of_stop: "scan_data tail = None \<Longrightarrow> data_of (Some (CHR ''\<newline>'' # tail)) = []"
  by (subst data_of.simps(2)) simp


lemma map_filter_parses:
  "\<forall>d\<in>set ds. scan_data d \<noteq> None \<Longrightarrow> List.map_filter scan_data ds = map (\<lambda>d. the (scan_data d)) ds"
  by (induction ds) (auto simp: List.map_filter_simps)

subsection \<open>The lines of a text\<close>

lemma lines_of_nonempty: "lines_of s \<noteq> []"
  by (induction s) (auto split: list.splits)

lemma lines_of_no_newline: "l \<in> set (lines_of s) \<Longrightarrow> CHR ''\<newline>'' \<notin> set l"
  by (induction s arbitrary: l) (auto split: list.splits if_splits)

lemma join_lines_Cons:
  "ls \<noteq> [] \<Longrightarrow> join_lines (l # ls) = l @ CHR ''\<newline>'' # join_lines ls"
  by (cases ls) auto

lemma join_lines_of: "join_lines (lines_of s) = s"
proof (induction s)
  case Nil
  then show ?case by simp
next
  case (Cons c s)
  obtain l ls where ls: "lines_of s = l # ls" using lines_of_nonempty [of s] by (cases "lines_of s") auto
  show ?case
  proof (cases "c = CHR ''\<newline>''")
    case True
    with Cons ls show ?thesis by simp
  next
    case False
    with Cons ls show ?thesis by (cases ls) auto
  qed
qed

lemma reply_text:
  assumes "lines_of r = h # ls"
  shows "CHR ''\<newline>'' \<notin> set h" and "\<forall>l\<in>set ls. CHR ''\<newline>'' \<notin> set l"
    and "ls = [] \<Longrightarrow> r = h" and "ls \<noteq> [] \<Longrightarrow> r = h @ CHR ''\<newline>'' # join_lines ls"
proof -
  from lines_of_no_newline [of _ r] assms show "CHR ''\<newline>'' \<notin> set h"
    and "\<forall>l\<in>set ls. CHR ''\<newline>'' \<notin> set l" by auto
  from join_lines_of [of r] assms show "ls = [] \<Longrightarrow> r = h" by simp
  from join_lines_of [of r] assms show "ls \<noteq> [] \<Longrightarrow> r = h @ CHR ''\<newline>'' # join_lines ls"
    by (simp add: join_lines_Cons)
qed

lemma lines_of_line:
  "CHR ''\<newline>'' \<notin> set l \<Longrightarrow> lines_of (l @ CHR ''\<newline>'' # s) = l # lines_of s"
  by (induction l) auto

lemma lines_of_single: "CHR ''\<newline>'' \<notin> set l \<Longrightarrow> lines_of l = [l]"
  by (induction l) auto

lemma lines_of_join:
  "ls \<noteq> [] \<Longrightarrow> \<forall>l\<in>set ls. CHR ''\<newline>'' \<notin> set l \<Longrightarrow> lines_of (join_lines ls) = ls"
proof (induction ls rule: join_lines.induct)
  case 1
  then show ?case by simp
next
  case (2 l)
  then show ?case by (simp add: lines_of_single)
next
  case (3 l m ls)
  then show ?case by (simp add: lines_of_line)
qed

subsection \<open>White space between the lines\<close>

lemma dropWhile_space: "list_all isspace w \<Longrightarrow> dropWhile isspace (w @ y) = dropWhile isspace y"
  by (induction w) auto

lemma dropWhile_blank: "list_all isspace w \<Longrightarrow> dropWhile isspace w = []"
  by (induction w) auto

lemma scan_data_skip:
  assumes "dropWhile isspace s = dropWhile isspace s'"
  shows "scan_data s = scan_data s'"
proof -
  have "scan data_format s [] = scan data_format s' []"
    unfolding data_format_def using assms by (simp add: Let_def)
  then show ?thesis by (simp add: scan_data_def sscanf_def)
qed

lemma scan_data_space: "list_all isspace w \<Longrightarrow> scan_data (w @ y) = scan_data y"
  by (rule scan_data_skip) (simp add: dropWhile_space)

lemma scan_data_blank: "list_all isspace w \<Longrightarrow> scan_data w = None"
proof -
  assume "list_all isspace w"
  then have "dropWhile isspace w = dropWhile isspace []" by (simp add: dropWhile_blank)
  then have "scan_data w = scan_data []" by (rule scan_data_skip)
  also have "\<dots> = None" by code_simp
  finally show ?thesis .
qed

lemma join_blank: "list_all blank ls \<Longrightarrow> list_all isspace (join_lines ls)"
  by (induction ls rule: join_lines.induct) (auto simp: blank_def nl_facts)

lemma scan_convs_blank:
  assumes "list_all is_conv ds" and "list_all isspace x" and "scan ds s vs = (n, vs', r)"
  shows "\<exists>r'. scan ds (s @ CHR ''\<newline>'' # x) vs = (n, vs', r')"
  using assms
proof (induction ds arbitrary: s vs)
  case Nil
  then show ?case by (auto simp: stopped_def)
next
  case (Cons d ds)
  let ?y = "CHR ''\<newline>'' # x"
  let ?t = "dropWhile isspace s"
  from Cons.prems(1) have conv: "is_conv d" and rest: "list_all is_conv ds" by simp_all
  have y: "list_all isspace ?y" using Cons.prems(2) by (simp add: nl_facts)
  show ?case
  proof (cases "?t = []")
    case True
    then have "list_all isspace s" by (simp add: dropWhile_eq_Nil_conv list_all_iff)
    then have "dropWhile isspace (s @ ?y) = []"
      using y by (simp add: dropWhile_space dropWhile_blank)
    from scan_input_failure [OF this conv, of ds vs] scan_input_failure [OF True conv, of ds vs] Cons.prems(3)
    show ?thesis by metis
  next
    case False
    then have t: "dropWhile isspace (s @ ?y) = ?t @ ?y" by (rule dropWhile_keep)
    have ne: "?t @ ?y \<noteq> []" by simp
    note here = scan_step [OF refl False, where ds = ds and vs = vs]
    note there = scan_step [OF t ne, where ds = ds and vs = vs]
    show ?thesis
    proof (cases d)
      case (Lit c)
      with conv show ?thesis by (simp add: is_conv_def)
    next
      case Blank
      with conv show ?thesis by (simp add: is_conv_def)
    next
      case Conv_d
      show ?thesis
      proof (cases "scan_d ?t")
        case None
        with Cons.prems(3) show ?thesis
          unfolding Conv_d here(1) there(1) scan_d_nl by (auto simp: stopped_def)
      next
        case (Some a)
        obtain v r1 where a: "a = (v, r1)" by (cases a)
        from Some a Cons.prems(3)
        have s: "scan ds r1 (vs @ [Int_val v]) = (n, vs', r)" unfolding Conv_d here(1) by simp
        from Cons.IH [OF rest Cons.prems(2) s] Some a show ?thesis
          unfolding Conv_d there(1) scan_d_nl by simp
      qed
    next
      case (Conv_s w)
      show ?thesis
      proof (cases "scan_s w ?t")
        case None
        with Cons.prems(3) show ?thesis
          unfolding Conv_s here(2) there(2) scan_s_nl by (auto simp: stopped_def)
      next
        case (Some a)
        obtain v r1 where a: "a = (v, r1)" by (cases a)
        from Some a Cons.prems(3)
        have s: "scan ds r1 (vs @ [Str_val v]) = (n, vs', r)" unfolding Conv_s here(2) by simp
        from Cons.IH [OF rest Cons.prems(2) s] Some a show ?thesis
          unfolding Conv_s there(2) scan_s_nl by simp
      qed
    next
      case Conv_f
      show ?thesis
      proof (cases "scan_f ?t")
        case None
        with Cons.prems(3) show ?thesis
          unfolding Conv_f here(3) there(3) scan_f_nl by (auto simp: stopped_def)
      next
        case (Some a)
        obtain v r1 where a: "a = (v, r1)" by (cases a)
        from Some a Cons.prems(3)
        have s: "scan ds r1 (vs @ [Flt_val v]) = (n, vs', r)" unfolding Conv_f here(3) by simp
        from Cons.IH [OF rest Cons.prems(2) s] Some a show ?thesis
          unfolding Conv_f there(3) scan_f_nl by simp
      qed
    qed
  qed
qed

lemma scan_header_blank:
  assumes "list_all isspace x"
  shows "scan_header (l @ CHR ''\<newline>'' # x) = scan_header l"
proof (cases l)
  case Nil
  have "scan_header (CHR ''\<newline>'' # x) = None"
    by (simp add: scan_header_def sscanf_def header_format_def stopped_def)
  moreover have "scan_header [] = None" by code_simp
  ultimately show ?thesis using Nil by simp
next
  case (Cons c l')
  show ?thesis
  proof (cases "c = CHR ''=''")
    case False
    with Cons show ?thesis
      by (simp add: scan_header_def sscanf_def header_format_def stopped_def)
  next
    case True
    have c: "list_all is_conv [Conv_d, Conv_d, Conv_d]" by (simp add: is_conv_def)
    obtain n vs r where s: "scan [Conv_d, Conv_d, Conv_d] l' [] = (n, vs, r)"
      by (cases "scan [Conv_d, Conv_d, Conv_d] l' []")
    from scan_convs_blank [OF c assms s] obtain r' where
      "scan [Conv_d, Conv_d, Conv_d] (l' @ CHR ''\<newline>'' # x) [] = (n, vs, r')" by blast
    with s True Cons show ?thesis
      by (simp add: scan_header_def sscanf_def header_format_scan)
  qed
qed

subsection \<open>A reply that is read line by line\<close>

lemma header_read:
  assumes l: "lines_of r = h # ls"
    and h: "scan_header h \<noteq> None \<or> refused header_format h \<or> list_all blank ls"
  shows "scan_header r = scan_header h"
proof (cases "ls = []")
  case True
  with reply_text(3) [OF l] show ?thesis by simp
next
  case False
  from reply_text(4) [OF l False] have r: "r = h @ CHR ''\<newline>'' # join_lines ls" .
  from h consider (a) v where "scan_header h = Some v" | (b) "refused header_format h"
    | (c) "list_all blank ls" by auto
  then show ?thesis
  proof cases
    case a
    then show ?thesis unfolding r by (simp add: scan_header_line)
  next
    case b
    from refused_header [OF b, of "join_lines ls"] show ?thesis unfolding r by simp
  next
    case c
    then show ?thesis unfolding r by (intro scan_header_blank join_blank)
  qed
qed

lemma scan_data_no_line:
  assumes "\<forall>l\<in>set ls. CHR ''\<newline>'' \<notin> set l"
    and "case dropWhile blank ls of [] \<Rightarrow> True | l # after \<Rightarrow> refused data_format l"
  shows "scan_data (join_lines ls) = None"
  using assms
proof (induction ls rule: join_lines.induct)
  case 1
  show ?case by (simp add: scan_data_blank)
next
  case (2 l)
  show ?case
  proof (cases "blank l")
    case True
    then show ?thesis by (simp add: scan_data_blank blank_def)
  next
    case False
    with 2 have "refused data_format l" by simp
    from refused_data [OF this] show ?thesis by simp
  qed
next
  case (3 l m ls)
  show ?case
  proof (cases "blank l")
    case True
    then have w: "list_all isspace (l @ ''\<newline>'')" by (simp add: blank_def nl_facts)
    from True 3 have "scan_data (join_lines (m # ls)) = None" by simp
    with scan_data_space [OF w, of "join_lines (m # ls)"] show ?thesis by simp
  next
    case False
    with 3 have "refused data_format l" by simp
    from refused_data [OF this, of "join_lines (m # ls)"] show ?thesis by simp
  qed
qed

lemma strchr_none: "c \<notin> set s \<Longrightarrow> strchr s c = None"
  by (simp add: strchr_def)

lemma data_of_join:
  assumes "ls \<noteq> []" and "\<forall>l\<in>set ls. CHR ''\<newline>'' \<notin> set l"
    and "case dropWhile blank (dropWhile parses ls) of [] \<Rightarrow> True | l # after \<Rightarrow> refused data_format l"
  shows "data_of (Some (CHR ''\<newline>'' # join_lines ls)) = List.map_filter scan_data (takeWhile parses ls)"
  using assms
proof (induction ls rule: join_lines.induct)
  case 1
  then show ?case by simp
next
  case (2 l)
  show ?case
  proof (cases "scan_data l")
    case None
    then show ?thesis
      by (simp add: data_of.simps(2) parses_def List.map_filter_simps)
  next
    case (Some v)
    from 2 have "strchr l (CHR ''\<newline>'') = None" by (simp add: strchr_none)
    with Some show ?thesis
      by (cases v) (simp add: data_of.simps(2) parses_def List.map_filter_simps)
  qed
next
  case (3 l m ls)
  let ?rest = "join_lines (m # ls)"
  from "3.prems"(2) have nl: "CHR ''\<newline>'' \<notin> set l" by simp
  show ?case
  proof (cases "scan_data l")
    case None
    then have np: "\<not> parses l" by (simp add: parses_def)
    with "3.prems" have "scan_data (join_lines (l # m # ls)) = None"
      by (intro scan_data_no_line) simp_all
    with np show ?thesis
      by (simp add: data_of.simps(2) List.map_filter_simps)
  next
    case (Some v)
    then have p: "parses l" by (simp add: parses_def)
    have 1: "scan_data (l @ CHR ''\<newline>'' # ?rest) = Some v" using Some by (rule scan_data_line)
    have 2: "strchr (l @ CHR ''\<newline>'' # ?rest) (CHR ''\<newline>'') = Some (CHR ''\<newline>'' # ?rest)"
      using nl by (rule strchr_line)
    have "data_of (Some (CHR ''\<newline>'' # ?rest)) = List.map_filter scan_data (takeWhile parses (m # ls))"
      using "3.prems" p by (intro "3.IH") simp_all
    with 1 2 p Some show ?thesis
      by (cases v) (simp add: data_of.simps(2) List.map_filter_simps)
  qed
qed

lemma line_wise_read:
  assumes "line_wise r"
  shows "scan_header r = header_by_line r" and "reply_lines r = data_by_line r"
proof -
  obtain h ls where l: "lines_of r = h # ls" using lines_of_nonempty [of r] by (cases "lines_of r") auto
  have hb: "header_by_line r = scan_header h" by (simp add: header_by_line_def l)
  from assms l have "scan_header h \<noteq> None \<or> refused header_format h \<or> list_all blank ls"
    by (auto simp: line_wise_def split: if_splits)
  from header_read [OF l this] hb show sh: "scan_header r = header_by_line r" by simp
  show "reply_lines r = data_by_line r"
  proof (cases "scan_header h")
    case None
    with sh hb show ?thesis by (simp add: reply_lines_def data_by_line_def)
  next
    case (Some v)
    with assms l have tail: "case dropWhile blank (dropWhile parses ls) of [] \<Rightarrow> True
        | l # after \<Rightarrow> refused data_format l"
      by (simp add: line_wise_def)
    have "data_of (strchr r (CHR ''\<newline>'')) = List.map_filter scan_data (takeWhile parses ls)"
    proof (cases "ls = []")
      case True
      with reply_text(1,3) [OF l] have "strchr r (CHR ''\<newline>'') = None" by (simp add: strchr_none)
      with True show ?thesis by (simp add: List.map_filter_simps)
    next
      case False
      from reply_text(4) [OF l False] reply_text(1) [OF l]
      have "strchr r (CHR ''\<newline>'') = Some (CHR ''\<newline>'' # join_lines ls)"
        by (simp add: strchr_line)
      with data_of_join [OF False reply_text(2) [OF l] tail] show ?thesis by simp
    qed
    with Some sh hb l show ?thesis by (simp add: reply_lines_def data_by_line_def)
  qed
qed

lemma strchr_not_empty: "strchr s c \<noteq> Some []"
  using strchr_nonempty by blast

lemma data_lines_merge_all:
  "r \<noteq> Some [] \<Longrightarrow> data_lines X b a r = merge_all X b a (data_of r)"
proof (induction X b a r rule: data_lines.induct)
  case (1 X b a)
  then show ?case by simp
next
  case (2 X b a r)
  from "2.prems" have ne: "r \<noteq> []" by simp
  show ?case
  proof (cases "scan_data (tl r)")
    case None
    with ne show ?thesis by (simp add: data_lines.simps(2) data_of.simps(2))
  next
    case (Some l)
    show ?thesis
    proof (cases "merge_line X b a l")
      case (Inl e)
      with Some ne show ?thesis by (simp add: data_lines.simps(2) data_of.simps(2))
    next
      case (Inr a')
      from "2.IH" [OF ne Some Inr strchr_not_empty] Some Inr ne show ?thesis
        by (simp add: data_lines.simps(2) data_of.simps(2))
    qed
  qed
qed

lemma replies_loop_same:
  assumes "scan_header r = scan_header r'" and "reply_lines r = reply_lines r'"
  shows "replies_loop X b a (rs1 @ r # rs2) = replies_loop X b a (rs1 @ r' # rs2)"
proof (induction rs1 arbitrary: a)
  case Nil
  show ?case
  proof (cases "scan_header r")
    case None
    with assms(1) show ?thesis by simp
  next
    case (Some v)
    moreover from Some assms(1) have "scan_header r' = Some v" by simp
    ultimately have "data_of (strchr r (CHR ''\<newline>'')) = data_of (strchr r' (CHR ''\<newline>''))"
      using assms(2) by (simp add: reply_lines_def)
    then have "data_lines X b a0 (strchr r (CHR ''\<newline>'')) = data_lines X b a0 (strchr r' (CHR ''\<newline>''))" for a0
      by (simp add: data_lines_merge_all strchr_not_empty)
    with Some assms(1) show ?thesis by (simp split: prod.splits)
  qed
next
  case (Cons x rs1)
  then show ?case by (auto split: option.splits sum.splits)
qed

lemma blank_not_parses: "blank l \<Longrightarrow> \<not> parses l"
  by (simp add: blank_def parses_def scan_data_blank)

lemma takeWhile_parses_blank: "list_all blank ls \<Longrightarrow> takeWhile parses ls = []"
  by (cases ls) (auto simp: blank_not_parses)

lemma empty_line: "blank []" "\<not> parses []"
  by (simp_all add: blank_def blank_not_parses)

lemma cut_reply_lines:
  assumes "lines_of r = h # ls"
  shows "lines_of (cut_reply r) = h # takeWhile parses ls @ [[], []]"
proof -
  have "\<forall>l\<in>set (h # takeWhile parses ls @ [[], []]). CHR ''\<newline>'' \<notin> set l"
    using reply_text(1,2) [OF assms] by (auto dest: set_takeWhileD)
  with lines_of_join [of "h # takeWhile parses ls @ [[], []]"] show ?thesis
    unfolding cut_reply_def assms by simp
qed

lemma takeWhile_parses_cut:
  "takeWhile parses (takeWhile parses ls @ [[], []]) = takeWhile parses ls"
  "dropWhile parses (takeWhile parses ls @ [[], []]) = [[], []]"
  by (induction ls) (auto simp: empty_line)

lemma cut_reply_line_wise:
  assumes "line_wise r"
  shows "line_wise (cut_reply r)" and "header_by_line (cut_reply r) = header_by_line r"
    and "data_by_line (cut_reply r) = data_by_line r"
proof -
  obtain h ls where l: "lines_of r = h # ls" using lines_of_nonempty [of r] by (cases "lines_of r") auto
  note c = cut_reply_lines [OF l]
  show hb: "header_by_line (cut_reply r) = header_by_line r" by (simp add: header_by_line_def l c)
  show "data_by_line (cut_reply r) = data_by_line r"
    by (simp add: data_by_line_def hb l c takeWhile_parses_cut)
  show "line_wise (cut_reply r)"
  proof (cases "scan_header h")
    case None
    with assms l have "refused header_format h \<or> list_all blank ls" by (simp add: line_wise_def)
    then show ?thesis
    proof
      assume "refused header_format h"
      with None show ?thesis by (simp add: line_wise_def c)
    next
      assume "list_all blank ls"
      then have "takeWhile parses ls = []" by (rule takeWhile_parses_blank)
      with None show ?thesis by (simp add: line_wise_def c empty_line)
    qed
  next
    case (Some v)
    then show ?thesis by (simp add: line_wise_def c takeWhile_parses_cut empty_line)
  qed
qed

lemma line_wise_cut_read:
  assumes "line_wise r"
  shows "scan_header (cut_reply r) = scan_header r" and "reply_lines (cut_reply r) = reply_lines r"
  using line_wise_read [OF assms] line_wise_read [OF cut_reply_line_wise(1) [OF assms]]
    cut_reply_line_wise(2,3) [OF assms]
  by simp_all

lemma merged_by_line:
  assumes "\<forall>r\<in>set rs. line_wise r"
  shows "merged X b rs = by_line X b rs" and "headers rs = headers_by_line rs"
proof -
  from assms have "map reply_lines rs = map data_by_line rs"
    by (simp add: line_wise_read)
  then show "merged X b rs = by_line X b rs" unfolding merged_def by_line_def by (simp only:)
  from assms show "headers rs = headers_by_line rs"
    by (induction rs)
       (auto simp: headers_def headers_by_line_def List.map_filter_simps line_wise_read split: option.splits)
qed

section \<open>The claims about \<open>select_best_move\<close>\<close>





text \<open>
  Claim C9 says that a data line which does not parse is skipped and that the lines
  after it are still read. The inner loop ends at such a line: with the line
  \<open>foo\<close> in front of \<open>D4 50 0.5\<close> the result is
  \<open>pass\<close> with empty statistics, without it D4 with 50 playouts.
\<close>

theorem unparseable_data_line_counterexample:
  "lines_of ''=1500 100 1\<newline>foo\<newline>D4 50 0.5\<newline>\<newline>'' = [''=1500 100 1'', ''foo'', ''D4 50 0.5'', [], []]
   \<and> scan_data ''foo'' = None
   \<and> scan_data ''D4 50 0.5'' = Some (''D4'', 50, Some (1 / 2))
   \<and> select_best_move X0 b19 st_bad_line = Inr (- 1, \<lparr>playouts = 0, value = Some 0\<rparr>, 100, 1)
   \<and> select_best_move X0 b19 st_good_line = Inr (88, \<lparr>playouts = 50, value = Some (1 / 2)\<rparr>, 100, 1)"
  by code_simp

text \<open>
  Claim C9 as amended, for a reply that is \<open>line_wise\<close>. When its first
  line is no header the reply adds nothing: the loop over the replies, and
  \<open>select_best_move\<close>, give the same result as without that reply, and a
  single such reply gives \<open>pass\<close>, empty statistics and zero totals. The
  first line that does not parse as a data line ends the reading of the reply: what the
  loops read are the data lines before it, and the loop over the replies, and
  \<open>select_best_move\<close>, give the same result as for the reply cut down to its
  header line, these data lines and the empty line. The lines after that line are not
  read, whether they parse or not.
\<close>

theorem unparseable_lines:
  assumes "line_wise r"
  shows "(header_by_line r = None \<longrightarrow>
            replies_loop X b a (rs1 @ r # rs2) = replies_loop X b a (rs1 @ rs2))
   \<and> (header_by_line r = None
        \<and> take (reply_count st) (gtp_replies st) = rs1 @ r # rs2
        \<and> reply_count st \<le> length (gtp_replies st)
        \<and> take (reply_count st') (gtp_replies st') = rs1 @ rs2
        \<and> reply_count st' \<le> length (gtp_replies st') \<and> 0 < reply_count st'
      \<longrightarrow> select_best_move X b st = select_best_move X b st')
   \<and> (header_by_line r = None \<and> in_stats b (pass X)
        \<and> reply_count st = 1 \<and> take 1 (gtp_replies st) = [r]
      \<longrightarrow> select_best_move X b st = Inr (pass X, zero_stats, 0, 0))
   \<and> reply_lines r = data_by_line r
   \<and> replies_loop X b a (rs1 @ r # rs2) = replies_loop X b a (rs1 @ cut_reply r # rs2)
   \<and> (take (reply_count st) (gtp_replies st) = rs1 @ r # rs2
        \<and> reply_count st \<le> length (gtp_replies st)
        \<and> take (reply_count st') (gtp_replies st') = rs1 @ cut_reply r # rs2
        \<and> reply_count st' \<le> length (gtp_replies st')
      \<longrightarrow> select_best_move X b st = select_best_move X b st')"
proof -
  note rd = line_wise_read [OF assms]
  have skip: "replies_loop X b a0 (rs1 @ r # rs2) = replies_loop X b a0 (rs1 @ rs2)"
    if "header_by_line r = None" for a0
    using that rd(1) by (simp add: replies_loop_skip)
  have same: "replies_loop X b a0 (rs1 @ r # rs2) = replies_loop X b a0 (rs1 @ cut_reply r # rs2)" for a0
    using line_wise_cut_read [OF assms] by (intro replies_loop_same) simp_all
  have 2: "select_best_move X b st = select_best_move X b st'"
    if "header_by_line r = None" "take (reply_count st) (gtp_replies st) = rs1 @ r # rs2"
      "reply_count st \<le> length (gtp_replies st)"
      "take (reply_count st') (gtp_replies st') = rs1 @ rs2"
      "reply_count st' \<le> length (gtp_replies st')" "0 < reply_count st'"
  proof -
    have "0 < reply_count st" using that(2) by (cases "reply_count st") auto
    with that show ?thesis by (simp add: select_best_move_def skip)
  qed
  have 3: "select_best_move X b st = Inr (pass X, zero_stats, 0, 0)"
    if "header_by_line r = None" "in_stats b (pass X)" "reply_count st = 1" "take 1 (gtp_replies st) = [r]"
  proof -
    have "length (take 1 (gtp_replies st)) = 1" using that(4) by simp
    then have "1 \<le> length (gtp_replies st)" by (cases "gtp_replies st") auto
    moreover have "scan_header r = None" using that(1) rd(1) by simp
    ultimately show ?thesis using that
      by (auto simp: select_best_move_def aggregator_init_def zero_stats_def)
  qed
  have 6: "select_best_move X b st = select_best_move X b st'"
    if "take (reply_count st) (gtp_replies st) = rs1 @ r # rs2"
      "reply_count st \<le> length (gtp_replies st)"
      "take (reply_count st') (gtp_replies st') = rs1 @ cut_reply r # rs2"
      "reply_count st' \<le> length (gtp_replies st')"
  proof -
    have "0 < reply_count st" using that(1) by (cases "reply_count st") auto
    moreover have "0 < reply_count st'" using that(3) by (cases "reply_count st'") auto
    ultimately show ?thesis using that by (simp add: select_best_move_def same)
  qed
  from skip [of a] same [of a] 2 3 6 rd(2) show ?thesis by blast
qed

text \<open>
  The reply \<open>= 1500 ok\<close> between two good replies changes nothing, alone it
  gives \<open>pass\<close>. In a reply with the line \<open>D4 x 0.5\<close> after two
  data lines, the two data lines are read and the line \<open>Q4 900 0.25\<close>
  after it is not.
\<close>

theorem unparseable_lines_witness:
  "line_wise ''= 1500 ok\<newline>\<newline>'' \<and> header_by_line ''= 1500 ok\<newline>\<newline>'' = None
   \<and> select_best_move X0 b19 st_AxB = select_best_move X0 b19 st_AB
   \<and> select_best_move X0 b19 st_only_bad = Inr (pass X0, zero_stats, 0, 0)
   \<and> line_wise reply_refused
   \<and> lines_of reply_refused
       = [''=1500 3200 6'', ''D4 1000 0.75'', ''Q16 500 0.625'', ''D4 x 0.5'', ''Q4 900 0.25'', [], []]
   \<and> refused data_format ''D4 x 0.5''
   \<and> reply_lines reply_refused = [(''D4'', 1000, Some (3 / 4)), (''Q16'', 500, Some (5 / 8))]
   \<and> cut_reply reply_refused = ''=1500 3200 6\<newline>D4 1000 0.75\<newline>Q16 500 0.625\<newline>\<newline>''
   \<and> select_best_move X0 b19 st_refused = select_best_move X0 b19 st_cut
   \<and> select_best_move X0 b19 st_cut = Inr (88, \<lparr>playouts = 1000, value = Some (3 / 4)\<rparr>, 3200, 6)"
proof -
  let ?bad = "''= 1500 ok\<newline>\<newline>''"
  have lb: "line_wise ?bad" and h: "header_by_line ?bad = None" by code_simp+
  have lr: "line_wise reply_refused" by code_simp
  have s: "take (reply_count st_AxB) (gtp_replies st_AxB) = [reply_A] @ ?bad # [reply_B]"
    "reply_count st_AxB \<le> length (gtp_replies st_AxB)"
    "take (reply_count st_AB) (gtp_replies st_AB) = [reply_A] @ [reply_B]"
    "reply_count st_AB \<le> length (gtp_replies st_AB)" "0 < reply_count st_AB"
    by code_simp+
  have o: "in_stats b19 (pass X0)" "reply_count st_only_bad = 1" "take 1 (gtp_replies st_only_bad) = [?bad]"
    by code_simp+
  have c: "cut_reply reply_refused = ''=1500 3200 6\<newline>D4 1000 0.75\<newline>Q16 500 0.625\<newline>\<newline>''"
    by code_simp
  have d: "data_by_line reply_refused = [(''D4'', 1000, Some (3 / 4)), (''Q16'', 500, Some (5 / 8))]"
    by code_simp
  have q: "take (reply_count st_refused) (gtp_replies st_refused) = [] @ reply_refused # []"
    "reply_count st_refused \<le> length (gtp_replies st_refused)"
    "take (reply_count st_cut) (gtp_replies st_cut) = [] @ cut_reply reply_refused # []"
    "reply_count st_cut \<le> length (gtp_replies st_cut)"
    unfolding c by code_simp+
  have e: "lines_of reply_refused
       = [''=1500 3200 6'', ''D4 1000 0.75'', ''Q16 500 0.625'', ''D4 x 0.5'', ''Q4 900 0.25'', [], []]"
    "refused data_format ''D4 x 0.5''"
    "select_best_move X0 b19 st_cut = Inr (88, \<lparr>playouts = 1000, value = Some (3 / 4)\<rparr>, 3200, 6)"
    by code_simp+
  note t1 = unparseable_lines [OF lb, of X0 b19 "aggregator_init X0" "[reply_A]" "[reply_B]" st_AxB st_AB]
  note t2 = unparseable_lines [OF lb, of X0 b19 "aggregator_init X0" "[reply_A]" "[reply_B]" st_only_bad st_AB]
  note t3 = unparseable_lines [OF lr, of X0 b19 "aggregator_init X0" "[]" "[]" st_refused st_cut]
  from t1 h s have 1: "select_best_move X0 b19 st_AxB = select_best_move X0 b19 st_AB" by blast
  from t2 h o have 2: "select_best_move X0 b19 st_only_bad = Inr (pass X0, zero_stats, 0, 0)" by blast
  from t3 have "reply_lines reply_refused = data_by_line reply_refused" by blast
  then have 3: "reply_lines reply_refused = [(''D4'', 1000, Some (3 / 4)), (''Q16'', 500, Some (5 / 8))]"
    unfolding d .
  from t3 q have 4: "select_best_move X0 b19 st_refused = select_best_move X0 b19 st_cut" by blast
  from lb h 1 2 lr 3 4 c e show ?thesis by blast
qed

text \<open>
  Claim C10 says that \<open>pass\<close> is returned when no reply contains a data line
  that parses. In the reply with the lines \<open>D4 50\<close> and \<open>0.5\<close>
  after the header no line parses as a data line, but the scan that starts at
  \<open>D4 50\<close> takes the value from the next line:
  \<open>select_best_move\<close> returns D4 with 50 playouts.
\<close>

theorem select_best_move_split_line_counterexample:
  "map lines_of (take (reply_count st_split) (gtp_replies st_split)) = [[''=1 1 1'', ''D4 50'', ''0.5'', [], []]]
   \<and> map scan_data [''D4 50'', ''0.5'', [], []] = [None, None, None, None]
   \<and> select_best_move X0 b19 st_split = Inr (88, \<lparr>playouts = 50, value = Some (1 / 2)\<rparr>, 1, 1)"
  by code_simp

text \<open>
  Claim C10 as amended. When every reply is \<open>line_wise\<close> and none has a data
  line (its first line is no header, or the line after the header does not parse),
  every result of \<open>select_best_move\<close> is \<open>pass\<close> with the
  statistics of an untouched entry, and the totals are the sums over the headers of the
  replies whose first line is a header. The result exists when there is at least one
  reply, \<open>pass\<close> is an index of the array, and the numbers in the headers
  are not negative and their sums fit an \<open>int\<close>.
\<close>

theorem select_best_move_without_data:
  assumes lw: "\<forall>r\<in>set (take (reply_count st) (gtp_replies st)). line_wise r"
    and nodata: "\<forall>r\<in>set (take (reply_count st) (gtp_replies st)). data_by_line r = []"
  shows "(select_best_move X b st = Inr (best, bs, np, nt) \<longrightarrow>
            best = pass X \<and> bs = zero_stats
            \<and> np = sum_list (map (\<lambda>h. fst (snd h)) (headers_by_line (take (reply_count st) (gtp_replies st))))
            \<and> nt = sum_list (map (\<lambda>h. snd (snd h)) (headers_by_line (take (reply_count st) (gtp_replies st)))))
       \<and> (0 < reply_count st \<and> reply_count st \<le> length (gtp_replies st) \<and> in_stats b (pass X)
          \<and> (\<forall>h\<in>set (headers_by_line (take (reply_count st) (gtp_replies st))).
                in_int (fst h) \<and> 0 \<le> fst (snd h) \<and> 0 \<le> snd (snd h))
          \<and> sum_list (map (\<lambda>h. fst (snd h)) (headers_by_line (take (reply_count st) (gtp_replies st)))) \<le> 2147483647
          \<and> sum_list (map (\<lambda>h. snd (snd h)) (headers_by_line (take (reply_count st) (gtp_replies st)))) \<le> 2147483647
          \<longrightarrow> select_best_move X b st
              = Inr (pass X, zero_stats,
                     sum_list (map (\<lambda>h. fst (snd h)) (headers_by_line (take (reply_count st) (gtp_replies st)))),
                     sum_list (map (\<lambda>h. snd (snd h)) (headers_by_line (take (reply_count st) (gtp_replies st))))))"
proof -
  from lw nodata have n: "\<forall>r\<in>set (take (reply_count st) (gtp_replies st)). reply_lines r = []"
    by (simp add: line_wise_read)
  from select_best_move_no_lines [OF n, of X b best bs np nt] show ?thesis
    unfolding merged_by_line(2) [OF lw] .
qed

text \<open>
  Three replies without data, the second with a first line that is no header:
  \<open>pass\<close>, 150 playouts and 3 threads from the two headers.
\<close>

theorem select_best_move_without_data_witness:
  "select_best_move X0 b19 st_no_data = Inr (pass X0, zero_stats, 150, 3)
   \<and> list_all line_wise (take (reply_count st_no_data) (gtp_replies st_no_data))
   \<and> headers_by_line (take (reply_count st_no_data) (gtp_replies st_no_data)) = [(1500, 100, 2), (1500, 50, 1)]"
proof -
  let ?rs = "take (reply_count st_no_data) (gtp_replies st_no_data)"
  have lw: "list_all line_wise ?rs" by code_simp
  then have lw': "\<forall>r\<in>set ?rs. line_wise r" by (simp add: list_all_iff)
  have "list_all (\<lambda>r. data_by_line r = []) ?rs" by code_simp
  then have n: "\<forall>r\<in>set ?rs. data_by_line r = []" by (simp add: list_all_iff)
  have hd: "headers_by_line ?rs = [(1500, 100, 2), (1500, 50, 1)]" by code_simp
  have c: "0 < reply_count st_no_data \<and> reply_count st_no_data \<le> length (gtp_replies st_no_data)
      \<and> in_stats b19 (pass X0)" by code_simp
  have r: "(\<forall>h\<in>set (headers_by_line ?rs). in_int (fst h) \<and> 0 \<le> fst (snd h) \<and> 0 \<le> snd (snd h))
          \<and> sum_list (map (\<lambda>h. fst (snd h)) (headers_by_line ?rs)) \<le> 2147483647
          \<and> sum_list (map (\<lambda>h. snd (snd h)) (headers_by_line ?rs)) \<le> 2147483647"
    unfolding hd by (simp add: in_int_def)
  from select_best_move_without_data [OF lw' n, of X0 b19] c r
  have "select_best_move X0 b19 st_no_data
              = Inr (pass X0, zero_stats,
                     sum_list (map (\<lambda>h. fst (snd h)) (headers_by_line ?rs)),
                     sum_list (map (\<lambda>h. snd (snd h)) (headers_by_line ?rs)))"
    by blast
  with lw show ?thesis unfolding hd by simp
qed

end
